theory Spec2Isabelle
  imports Complex_Main "HOL-Library.Log_Nat"
begin

section \<open>JavaScript numbers\<close>

text \<open>
  Every number of \<^verbatim>\<open>App.vue\<close> is an ECMAScript Number: an IEEE 754 binary64 value. A finite
  value is carried as the rational it denotes (\<open>Fin 0\<close> is \<open>+0\<close>); the other constructors are
  the values that are not rationals. Arithmetic computes the exact rational result and rounds
  it once, to the nearest binary64 value, ties to the even significand (\<open>fl\<close>).
\<close>

datatype js_number = NaN | PosInf | NegInf | NegZero | Fin rat

definition ilog2 :: "rat \<Rightarrow> int" where
  \<comment> \<open>the floor of the binary logarithm of a positive rational\<close>
  "ilog2 q = (let (a, b) = quotient_of q;
                  d = int (floorlog 2 (nat a)) - int (floorlog 2 (nat b))
              in if 2 powi d \<le> q then d else d - 1)"

definition expo :: "rat \<Rightarrow> int" where
  \<comment> \<open>exponent of the unit in the last place: 53 significant bits, never below \<open>2\<^sup>-\<^sup>1\<^sup>0\<^sup>7\<^sup>4\<close>\<close>
  "expo q = max (ilog2 \<bar>q\<bar> - 52) (- 1074)"

definition rne :: "rat \<Rightarrow> int" where
  \<comment> \<open>nearest integer, ties to even\<close>
  "rne x = (let f = \<lfloor>x\<rfloor>; r = x - of_int f
            in if r < 1 / 2 then f else if 1 / 2 < r then f + 1
               else if even f then f else f + 1)"

definition rnd :: "rat \<Rightarrow> rat" where
  \<comment> \<open>the nearest multiple of the unit in the last place\<close>
  "rnd q = of_int (rne (q / 2 powi expo q)) * 2 powi expo q"

definition fl :: "rat \<Rightarrow> js_number" where
  \<comment> \<open>rounding of an exact result: overflow gives an infinity, underflow a signed zero\<close>
  "fl q = (if q = 0 then Fin 0
           else let r = rnd q
                in if 2 powi 1024 \<le> r then PosInf
                   else if r \<le> - (2 powi 1024) then NegInf
                   else if r = 0 then (if q < 0 then NegZero else Fin 0)
                   else Fin r)"

definition is_double :: "rat \<Rightarrow> bool" where
  \<comment> \<open>the rationals that are binary64 values\<close>
  "is_double q \<longleftrightarrow>
     q = 0 \<or> (\<bar>q\<bar> < 2 powi 1024 \<and> of_int \<lfloor>q / 2 powi expo q\<rfloor> = q / 2 powi expo q)"

fun sign_bit :: "js_number \<Rightarrow> bool" where
  "sign_bit NegInf = True"
| "sign_bit NegZero = True"
| "sign_bit (Fin q) = (q < 0)"
| "sign_bit _ = False"

fun val :: "js_number \<Rightarrow> rat" where
  "val (Fin q) = q"
| "val _ = 0"

definition is_zero :: "js_number \<Rightarrow> bool" where
  "is_zero x \<longleftrightarrow> x = Fin 0 \<or> x = NegZero"

definition is_inf :: "js_number \<Rightarrow> bool" where
  "is_inf x \<longleftrightarrow> x = PosInf \<or> x = NegInf"

fun is_finite :: "js_number \<Rightarrow> bool" where
  \<comment> \<open>neither NaN nor an infinity: the values an attribute of WebIDL type \<^verbatim>\<open>double\<close> accepts\<close>
  "is_finite (Fin q) = True"
| "is_finite NegZero = True"
| "is_finite _ = False"

definition signed_zero :: "bool \<Rightarrow> js_number" where
  "signed_zero neg = (if neg then NegZero else Fin 0)"

definition signed_inf :: "bool \<Rightarrow> js_number" where
  "signed_inf neg = (if neg then NegInf else PosInf)"

fun js_add :: "js_number \<Rightarrow> js_number \<Rightarrow> js_number" where
  "js_add NaN _ = NaN"
| "js_add _ NaN = NaN"
| "js_add PosInf NegInf = NaN"
| "js_add NegInf PosInf = NaN"
| "js_add PosInf _ = PosInf"
| "js_add _ PosInf = PosInf"
| "js_add NegInf _ = NegInf"
| "js_add _ NegInf = NegInf"
| "js_add NegZero y = y"
| "js_add (Fin a) NegZero = Fin a"
| "js_add (Fin a) (Fin b) = (if a + b = 0 then Fin 0 else fl (a + b))"

definition js_mul :: "js_number \<Rightarrow> js_number \<Rightarrow> js_number" where
  "js_mul x y =
     (if x = NaN \<or> y = NaN then NaN
      else if (is_inf x \<and> is_zero y) \<or> (is_zero x \<and> is_inf y) then NaN
      else if is_inf x \<or> is_inf y then signed_inf (sign_bit x \<noteq> sign_bit y)
      else if is_zero x \<or> is_zero y then signed_zero (sign_bit x \<noteq> sign_bit y)
      else fl (val x * val y))"

definition js_div :: "js_number \<Rightarrow> js_number \<Rightarrow> js_number" where
  "js_div x y =
     (if x = NaN \<or> y = NaN then NaN
      else if (is_inf x \<and> is_inf y) \<or> (is_zero x \<and> is_zero y) then NaN
      else if is_inf x \<or> is_zero y then signed_inf (sign_bit x \<noteq> sign_bit y)
      else if is_inf y \<or> is_zero x then signed_zero (sign_bit x \<noteq> sign_bit y)
      else fl (val x / val y))"

fun js_ge :: "js_number \<Rightarrow> js_number \<Rightarrow> bool" where
  \<comment> \<open>the operator \<^verbatim>\<open>>=\<close>: false as soon as one side is NaN\<close>
  "js_ge NaN _ = False"
| "js_ge _ NaN = False"
| "js_ge PosInf _ = True"
| "js_ge _ NegInf = True"
| "js_ge NegInf _ = False"
| "js_ge _ PosInf = False"
| "js_ge x y = (val y \<le> val x)"

fun js_round :: "js_number \<Rightarrow> js_number" where
  \<comment> \<open>\<^verbatim>\<open>Math.round\<close>: nearest integer, ties towards \<open>+\<infinity>\<close>; \<open>-0\<close> for \<open>-1/2 \<le> x < 0\<close>\<close>
  "js_round (Fin q) = (if - (1 / 2) \<le> q \<and> q < 0 then NegZero else Fin (of_int \<lfloor>q + 1 / 2\<rfloor>))"
| "js_round x = x"

definition js_of_nat :: "nat \<Rightarrow> js_number" where
  \<comment> \<open>an unsigned integer attribute of the DOM (below \<open>2\<^sup>5\<^sup>3\<close>, so exact) read as a Number\<close>
  "js_of_nat n = Fin (of_nat n)"

section \<open>Application state\<close>

record js_file =
  file_name :: string
  file_type :: string
  file_size :: nat

text \<open>
  The user-visible texts of the source are Chinese string literals; each is a constructor here.
  \<open>AlertNotVideo\<close> is the alert of \<^verbatim>\<open>processFile\<close>, \<open>AlertInitFailed\<close> the one of
  \<^verbatim>\<open>initWorker\<close>, \<open>AlertLibNotLoaded\<close> the one of \<^verbatim>\<open>startConversion\<close>.
\<close>

datatype alert_msg = AlertNotVideo | AlertInitFailed | AlertLibNotLoaded

datatype loading_text =
  LoadingNone | LoadingInitializing | LoadingCapturing | LoadingRendering | LoadingEncoding

datatype progress_text =
  ProgressNone
  | ProgressCapture js_number nat  \<comment> \<open>capture percentage and frame count\<close>
  | ProgressPercent js_number  \<comment> \<open>encoder percentage\<close>

datatype size_text =
  SizeNone
  | SizeFixed2 js_number  \<comment> \<open>\<^verbatim>\<open>toFixed(2)\<close> of the number\<close>

record settings =
  loop :: bool
  width :: js_number
  fps :: js_number

record video_element =
  videoWidth :: nat
  videoHeight :: nat
  duration :: js_number
  video_currentTime :: js_number
  paused :: bool

record app_state =
  isLibLoaded :: bool
  videoFile :: "js_file option"
  videoUrl :: string
  workerBlobUrl :: string
  isProcessing :: bool
  progress :: js_number
  progressText :: progress_text
  loadingText :: loading_text
  resultUrl :: string
  resultSize :: size_text
  settings :: settings
  sourceVideoRef :: "video_element option"

definition initial_state :: app_state where
  "initial_state =
     \<lparr>isLibLoaded = False, videoFile = None, videoUrl = [], workerBlobUrl = [],
      isProcessing = False, progress = Fin 0, progressText = ProgressNone,
      loadingText = LoadingNone, resultUrl = [], resultSize = SizeNone,
      settings = \<lparr>loop = True, width = Fin 480, fps = Fin 10\<rparr>,
      sourceVideoRef = None\<rparr>"

section \<open>The browser\<close>

record gif_options =
  workers :: nat
  quality :: nat
  gif_width :: js_number
  gif_height :: js_number
  workerScript :: string
  repeat :: int
  background :: string

datatype blob = ScriptBlob string | FileBlob js_file | GifBlob nat

datatype effect =
  Alert alert_msg
  | ConsoleError
  | FetchWorkerScript
  | CreateObjectURL string
  | RevokeObjectURL string
  | VideoLoad
  | VideoPause
  | VideoSeek js_number
  | CreateCanvas js_number js_number
  | DrawImage js_number js_number js_number
  | GifNew gif_options
  | GifAddFrame js_number js_number
  | GifRender

text \<open>
  What the application does to its surroundings is kept in a \<open>browser\<close> value: the object
  URLs that are alive (created and not revoked) with the blob each one names, a counter that
  makes every new object URL a new string, and the effects in the order they happened.
\<close>

record browser =
  object_urls :: "(string \<times> blob) list"
  url_counter :: nat
  trace :: "effect list"

definition emit :: "effect \<Rightarrow> browser \<Rightarrow> browser" where
  "emit e b = b\<lparr>trace := trace b @ [e]\<rparr>"

definition createObjectURL :: "blob \<Rightarrow> browser \<Rightarrow> string \<times> browser" where
  "createObjectURL bl b =
     (let u = ''blob:'' @ replicate (url_counter b) (CHR ''i'')
      in (u, emit (CreateObjectURL u)
               (b\<lparr>object_urls := (u, bl) # object_urls b, url_counter := Suc (url_counter b)\<rparr>)))"

definition revokeObjectURL :: "string \<Rightarrow> browser \<Rightarrow> browser" where
  "revokeObjectURL u b =
     emit (RevokeObjectURL u) (b\<lparr>object_urls := filter (\<lambda>p. fst p \<noteq> u) (object_urls b)\<rparr>)"

definition startsWith :: "string \<Rightarrow> string \<Rightarrow> bool" where
  "startsWith s p \<longleftrightarrow> take (length p) s = p"

section \<open>Worker bootstrap: initWorker\<close>

text \<open>
  \<^verbatim>\<open>fetch\<close> rejects on a network error only; an HTTP error status resolves with a response
  whose body \<^verbatim>\<open>text()\<close> still delivers.
\<close>

datatype fetch_outcome = NetworkError | Response nat string

datatype 'a async = Returned 'a | AwaitingFetch

definition initWorker_begin :: "app_state \<times> browser \<Rightarrow> bool async \<times> app_state \<times> browser" where
  \<comment> \<open>up to the first \<^verbatim>\<open>await\<close>\<close>
  "initWorker_begin sb =
     (case sb of (s, b) \<Rightarrow>
        if workerBlobUrl s \<noteq> [] then (Returned True, s, b)
        else (AwaitingFetch, s, emit FetchWorkerScript b))"

definition initWorker_resume ::
  "fetch_outcome \<Rightarrow> app_state \<times> browser \<Rightarrow> bool \<times> app_state \<times> browser" where
  \<comment> \<open>from the settled \<^verbatim>\<open>fetch\<close> to the return\<close>
  "initWorker_resume r sb =
     (case sb of (s, b) \<Rightarrow>
        (case r of
           NetworkError \<Rightarrow> (False, s, emit (Alert AlertInitFailed) (emit ConsoleError b))
         | Response status body \<Rightarrow>
             (let (u, b') = createObjectURL (ScriptBlob body) b
              in (True, s\<lparr>workerBlobUrl := u\<rparr>, b'))))"

definition initWorker :: "fetch_outcome \<Rightarrow> app_state \<times> browser \<Rightarrow> bool \<times> app_state \<times> browser" where
  "initWorker r sb =
     (case initWorker_begin sb of
        (Returned ok, sb') \<Rightarrow> (ok, sb')
      | (AwaitingFetch, sb') \<Rightarrow> initWorker_resume r sb')"

section \<open>File selection: processFile\<close>

definition processFile :: "js_file \<Rightarrow> app_state \<times> browser \<Rightarrow> app_state \<times> browser" where
  "processFile f sb =
     (case sb of (s, b) \<Rightarrow>
        if \<not> startsWith (file_type f) ''video/'' then (s, emit (Alert AlertNotVideo) b)
        else
          let b1 = (if videoUrl s \<noteq> [] then revokeObjectURL (videoUrl s) b else b);
              (s1, b2) = (if resultUrl s \<noteq> []
                          then (s\<lparr>resultUrl := []\<rparr>, revokeObjectURL (resultUrl s) b1)
                          else (s, b1));
              (u, b3) = createObjectURL (FileBlob f) b2;
              s2 = s1\<lparr>videoFile := Some f, videoUrl := u,
                      progress := Fin 0, progressText := ProgressNone\<rparr>
          in (s2, if sourceVideoRef s2 \<noteq> None then emit VideoLoad b3 else b3))"

definition handleFileChange :: "js_file list option \<Rightarrow> app_state \<times> browser \<Rightarrow> app_state \<times> browser" where
  \<comment> \<open>\<^verbatim>\<open>input.files\<close> may be null or empty; also the body of \<^verbatim>\<open>handleDrop\<close>\<close>
  "handleFileChange files sb =
     (case files of Some (f # _) \<Rightarrow> processFile f sb | _ \<Rightarrow> sb)"

section \<open>Conversion: startConversion and its capture loop\<close>

definition maxFrames :: nat where
  "maxFrames = 300"

record job =
  job_width :: js_number
  job_height :: js_number
  job_duration :: js_number
  job_interval :: js_number

record loop_vars =
  currentTime :: js_number
  frameCount :: nat

datatype outcome =
  Cancelled  \<comment> \<open>the cancellation guard returned\<close>
  | Rendered  \<comment> \<open>an exit test held and \<^verbatim>\<open>gif.render()\<close> was called\<close>
  | Stalled  \<comment> \<open>a \<^verbatim>\<open>seeked\<close> event never arrived\<close>
  | SeekThrew  \<comment> \<open>the assignment to \<^verbatim>\<open>video.currentTime\<close> threw a TypeError\<close>

datatype step =
  Finished outcome "app_state \<times> browser"
  | Scheduled loop_vars "app_state \<times> browser"

text \<open>
  One invocation of \<^verbatim>\<open>captureFrame\<close>. The \<^verbatim>\<open>seeked\<close> event of the k-th seek is delivered by the
  browser or not (\<open>seeked k\<close>); when it is not, the awaited promise never resolves and the
  invocation stays suspended for good (\<open>Stalled\<close>). \<^verbatim>\<open>HTMLMediaElement.currentTime\<close> is an
  attribute of type \<^verbatim>\<open>double\<close>: assigning NaN or an infinity to it throws a TypeError before
  anything is sought, the promise of the invocation is rejected and nothing is scheduled or
  rendered (\<open>SeekThrew\<close>). \<open>Scheduled\<close> is the \<^verbatim>\<open>setTimeout(captureFrame, 0)\<close> at the end.
\<close>

definition captureFrame_once ::
  "job \<Rightarrow> (nat \<Rightarrow> bool) \<Rightarrow> loop_vars \<Rightarrow> app_state \<times> browser \<Rightarrow> step" where
  "captureFrame_once j seeked lv sb =
     (case sb of (s, b) \<Rightarrow>
        if \<not> isProcessing s \<and> 0 < frameCount lv \<and> resultUrl s = [] then Finished Cancelled (s, b)
        else if maxFrames \<le> frameCount lv \<or> js_ge (currentTime lv) (job_duration j)
        then Finished Rendered (s\<lparr>loadingText := LoadingRendering\<rparr>, emit GifRender b)
        else if \<not> is_finite (currentTime lv) then Finished SeekThrew (s, b)
        else
          let s1 = s\<lparr>sourceVideoRef :=
                       map_option (\<lambda>v. v\<lparr>video_currentTime := currentTime lv\<rparr>) (sourceVideoRef s)\<rparr>;
              b1 = emit (VideoSeek (currentTime lv)) b
          in if \<not> seeked (frameCount lv) then Finished Stalled (s1, b1)
             else
               let b2 = emit (DrawImage (currentTime lv) (job_width j) (job_height j)) b1;
                   b3 = emit (GifAddFrame (currentTime lv) (js_mul (job_interval j) (Fin 1000))) b2;
                   n = Suc (frameCount lv);
                   captureProgress =
                     js_round (js_mul (js_div (currentTime lv) (job_duration j)) (Fin 100));
                   s2 = s1\<lparr>progressText := ProgressCapture captureProgress n\<rparr>
               in Scheduled \<lparr>currentTime = js_add (currentTime lv) (job_interval j),
                              frameCount = n\<rparr> (s2, b3))"

text \<open>
  The whole loop: \<^verbatim>\<open>captureFrame\<close> with every re-invocation it schedules. The frame counter
  grows with each scheduled invocation and none is scheduled from \<open>maxFrames\<close> on.
\<close>

function captureFrame ::
  "job \<Rightarrow> (nat \<Rightarrow> bool) \<Rightarrow> loop_vars \<Rightarrow> app_state \<times> browser \<Rightarrow> outcome \<times> app_state \<times> browser" where
  "captureFrame j seeked lv sb =
     (case captureFrame_once j seeked lv sb of
        Finished r sb' \<Rightarrow> (r, sb')
      | Scheduled lv' sb' \<Rightarrow> captureFrame j seeked lv' sb')"
  by pat_completeness auto
termination
  by (relation "measure (\<lambda>(j, seeked, lv, sb). Suc maxFrames - frameCount lv)")
    (auto simp: captureFrame_once_def Let_def split: prod.splits if_splits)

declare captureFrame.simps [simp del]

text \<open>
  The same loop driven by the event loop for a bounded number of turns: \<open>None\<close> when the
  turns run out before an invocation finishes.
\<close>

primrec captureFrame_turns ::
  "nat \<Rightarrow> job \<Rightarrow> (nat \<Rightarrow> bool) \<Rightarrow> loop_vars \<Rightarrow> app_state \<times> browser
     \<Rightarrow> (outcome \<times> app_state \<times> browser) option" where
  "captureFrame_turns 0 j seeked lv sb = None"
| "captureFrame_turns (Suc n) j seeked lv sb =
     (case captureFrame_once j seeked lv sb of
        Finished r sb' \<Rightarrow> Some (r, sb')
      | Scheduled lv' sb' \<Rightarrow> captureFrame_turns n j seeked lv' sb')"

record env =
  fetch_result :: fetch_outcome
  gif_defined :: bool
  ctx_available :: bool
  seeked :: "nat \<Rightarrow> bool"

definition gif_options_of :: "app_state \<Rightarrow> js_number \<Rightarrow> js_number \<Rightarrow> gif_options" where
  \<comment> \<open>the object literal passed to \<^verbatim>\<open>new GIF\<close>\<close>
  "gif_options_of s w h =
     \<lparr>workers = 2, quality = 10, gif_width = w, gif_height = h,
      workerScript = workerBlobUrl s,
      repeat = (if loop (settings s) then 0 else - 1),
      background = ''#fff''\<rparr>"

definition target_height :: "js_number \<Rightarrow> video_element \<Rightarrow> js_number" where
  \<comment> \<open>\<^verbatim>\<open>ratio = videoHeight / videoWidth; height = Math.round(width * ratio)\<close>\<close>
  "target_height w v =
     js_round (js_mul w (js_div (js_of_nat (videoHeight v)) (js_of_nat (videoWidth v))))"

datatype conversion =
  NotStarted  \<comment> \<open>one of the early returns before \<^verbatim>\<open>isProcessing\<close> is set\<close>
  | Threw  \<comment> \<open>a TypeError: \<^verbatim>\<open>sourceVideoRef.value\<close> was null when its \<^verbatim>\<open>videoHeight\<close> was read\<close>
  | NoContext  \<comment> \<open>the return after \<^verbatim>\<open>getContext\<close> gave null\<close>
  | Captured outcome  \<comment> \<open>the capture loop ran and ended so\<close>

definition startConversion :: "env \<Rightarrow> app_state \<times> browser \<Rightarrow> conversion \<times> app_state \<times> browser" where
  "startConversion e sb =
     (case sb of (s, b) \<Rightarrow>
        if videoFile s = None \<or> sourceVideoRef s = None then (NotStarted, s, b)
        else
          let (success, s0, b0) =
                (if workerBlobUrl s = [] then initWorker (fetch_result e) (s, b) else (True, s, b))
          in if \<not> success then (NotStarted, s0, b0)
             else if \<not> gif_defined e then (NotStarted, s0, emit (Alert AlertLibNotLoaded) b0)
             else
               (let s1 = s0\<lparr>isProcessing := True, loadingText := LoadingInitializing\<rparr>;
                    w = width (settings s1)
                in case sourceVideoRef s1 of
                  None \<Rightarrow> (Threw, s1, b0)
                | Some video \<Rightarrow>
                    let h = target_height w video;
                        b1 = emit (CreateCanvas w h) b0
                    in if \<not> ctx_available e then (NoContext, s1, b1)
                       else
                         let b2 = emit (GifNew (gif_options_of s1 w h)) b1;
                             s2 = s1\<lparr>loadingText := LoadingCapturing\<rparr>;
                             j = \<lparr>job_width = w, job_height = h,
                                  job_duration = duration video,
                                  job_interval = js_div (Fin 1) (fps (settings s2))\<rparr>;
                             s3 = s2\<lparr>sourceVideoRef := Some (video\<lparr>paused := True\<rparr>)\<rparr>;
                             b3 = emit VideoPause b2;
                             (r, sb') = captureFrame j (seeked e)
                                          \<lparr>currentTime = Fin 0, frameCount = 0\<rparr> (s3, b3)
                         in (Captured r, sb')))"

text \<open>The two callbacks registered on the encoder.\<close>

definition on_progress :: "js_number \<Rightarrow> app_state \<Rightarrow> app_state" where
  "on_progress p s =
     (let v = js_round (js_mul p (Fin 100))
      in s\<lparr>progress := v, progressText := ProgressPercent v, loadingText := LoadingEncoding\<rparr>)"

definition on_finished :: "nat \<Rightarrow> app_state \<times> browser \<Rightarrow> app_state \<times> browser" where
  \<comment> \<open>the argument is \<^verbatim>\<open>blob.size\<close>\<close>
  "on_finished sz sb =
     (case sb of (s, b) \<Rightarrow>
        let (u, b') = createObjectURL (GifBlob sz) b
        in (s\<lparr>resultUrl := u,
              resultSize := SizeFixed2 (js_div (js_div (js_of_nat sz) (Fin 1024)) (Fin 1024)),
              isProcessing := False, loadingText := LoadingNone\<rparr>, b'))"

section \<open>Observations on runs\<close>

text \<open>
  The effects of one captured frame at timestamp \<open>t\<close>, the timestamps at which
  \<^verbatim>\<open>captureFrame\<close> captures a frame when every seek completes (the same two exit tests and
  the same test of the seek target, without the effects), the k-th value of \<^verbatim>\<open>currentTime\<close>
  (\<open>k\<close> additions of the interval, from the left), and what a trace shows.
\<close>

definition frame_events :: "job \<Rightarrow> js_number \<Rightarrow> effect list" where
  "frame_events j t =
     [VideoSeek t, DrawImage t (job_width j) (job_height j),
      GifAddFrame t (js_mul (job_interval j) (Fin 1000))]"

function sampled :: "js_number \<Rightarrow> js_number \<Rightarrow> js_number \<Rightarrow> nat \<Rightarrow> js_number list" where
  "sampled d i t n =
     (if maxFrames \<le> n \<or> js_ge t d \<or> \<not> is_finite t then []
      else t # sampled d i (js_add t i) (Suc n))"
  by pat_completeness auto
termination
  by (relation "measure (\<lambda>(d, i, t, n). maxFrames - n)") auto

declare sampled.simps [simp del]

primrec nth_time :: "js_number \<Rightarrow> js_number \<Rightarrow> nat \<Rightarrow> js_number" where
  "nth_time t i 0 = t"
| "nth_time t i (Suc k) = js_add (nth_time t i k) i"

text \<open>
  How a run of the loop that started at timestamp \<open>t\<close> with \<open>n\<close> frames counted has ended,
  given the timestamps \<open>ts\<close> of the frames it captured and the effects \<open>fin\<close> of its last
  invocation.
\<close>

definition loop_end ::
  "outcome \<Rightarrow> (nat \<Rightarrow> bool) \<Rightarrow> js_number \<Rightarrow> js_number \<Rightarrow> js_number \<Rightarrow> nat
     \<Rightarrow> js_number list \<Rightarrow> effect list \<Rightarrow> bool" where
  "loop_end r sk d i t n ts fin =
     (case r of
        Rendered \<Rightarrow> fin = [GifRender] \<and> ts = sampled d i t n
          \<and> (maxFrames \<le> n + length ts \<or> js_ge (nth_time t i (length ts)) d)
      | SeekThrew \<Rightarrow> fin = [] \<and> ts = sampled d i t n
          \<and> \<not> (maxFrames \<le> n + length ts \<or> js_ge (nth_time t i (length ts)) d)
          \<and> \<not> is_finite (nth_time t i (length ts))
      | Cancelled \<Rightarrow> fin = []
      | Stalled \<Rightarrow> (\<exists>u. fin = [VideoSeek u]) \<and> (\<exists>k. \<not> sk k))"

definition submitted :: "effect list \<Rightarrow> js_number list" where
  \<comment> \<open>the timestamps of the frames handed to \<^verbatim>\<open>addFrame\<close>, in order\<close>
  "submitted es = concat (map (\<lambda>e. case e of GifAddFrame t d \<Rightarrow> [t] | _ \<Rightarrow> []) es)"

definition new_effects :: "browser \<Rightarrow> browser \<Rightarrow> effect list" where
  \<comment> \<open>what happened between an earlier and a later browser value\<close>
  "new_effects b b' = drop (length (trace b)) (trace b')"

text \<open>
  Names for parts of \<^verbatim>\<open>startConversion\<close>: the constants the loop closes over, the effects
  between the worker check and the first \<^verbatim>\<open>captureFrame\<close>, and the worker check itself.
\<close>

definition job_of :: "app_state \<Rightarrow> video_element \<Rightarrow> job" where
  "job_of s v =
     \<lparr>job_width = width (settings s), job_height = target_height (width (settings s)) v,
      job_duration = duration v, job_interval = js_div (Fin 1) (fps (settings s))\<rparr>"

definition setup_events :: "app_state \<Rightarrow> video_element \<Rightarrow> effect list" where
  "setup_events s v =
     [CreateCanvas (width (settings s)) (target_height (width (settings s)) v),
      GifNew (gif_options_of (s\<lparr>isProcessing := True, loadingText := LoadingInitializing\<rparr>)
                (width (settings s)) (target_height (width (settings s)) v)),
      VideoPause]"

definition worker_ready ::
  "env \<Rightarrow> app_state \<times> browser \<Rightarrow> bool \<times> app_state \<times> browser" where
  "worker_ready e sb =
     (if workerBlobUrl (fst sb) = [] then initWorker (fetch_result e) sb else (True, sb))"

definition drift :: "nat \<Rightarrow> rat \<Rightarrow> rat" where
  \<comment> \<open>a bound on the k-th timestamp: k intervals, each sum rounded up by at most one part in \<open>2\<^sup>5\<^sup>3\<close>\<close>
  "drift k i = of_nat k * i * (1 + of_nat k / 2 ^ 53)"

text \<open>Inputs for the examples.\<close>

definition always_seeked :: "nat \<Rightarrow> bool" where
  "always_seeked k = True"

definition never_seeked :: "nat \<Rightarrow> bool" where
  "never_seeked k = False"

definition browser0 :: browser where
  "browser0 = \<lparr>object_urls = [], url_counter = 0, trace = []\<rparr>"

definition clip :: js_file where
  "clip = \<lparr>file_name = ''clip.mp4'', file_type = ''video/mp4'', file_size = 1000\<rparr>"

definition picture :: js_file where
  "picture = \<lparr>file_name = ''photo.png'', file_type = ''image/png'', file_size = 1000\<rparr>"

definition video0 :: video_element where
  "video0 = \<lparr>videoWidth = 1920, videoHeight = 1080, duration = Fin 1,
              video_currentTime = Fin 0, paused = False\<rparr>"

definition ready_state :: app_state where
  \<comment> \<open>a video is selected and loaded, the worker script is cached\<close>
  "ready_state = initial_state\<lparr>videoFile := Some clip, videoUrl := ''blob:i'',
                   workerBlobUrl := ''blob:'', sourceVideoRef := Some video0\<rparr>"

definition env0 :: env where
  "env0 = \<lparr>fetch_result = Response 200 ''worker'', gif_defined = True,
            ctx_available = True, seeked = always_seeked\<rparr>"

definition converted_state :: app_state where
  \<comment> \<open>\<open>ready_state\<close> after a first conversion has finished\<close>
  "converted_state = ready_state\<lparr>resultUrl := ''blob:ii'', resultSize := SizeFixed2 (Fin 1)\<rparr>"

definition converted_browser :: browser where
  "converted_browser =
     \<lparr>object_urls = [(''blob:ii'', GifBlob 1048576), (''blob:i'', FileBlob clip),
                      (''blob:'', ScriptBlob ''worker'')],
      url_counter = 3, trace = []\<rparr>"

definition capturing_state :: app_state where
  \<comment> \<open>\<open>ready_state\<close> as \<^verbatim>\<open>startConversion\<close> hands it to the first \<^verbatim>\<open>captureFrame\<close>\<close>
  "capturing_state = ready_state\<lparr>isProcessing := True, loadingText := LoadingCapturing,
                       sourceVideoRef := Some (video0\<lparr>paused := True\<rparr>)\<rparr>"

definition minus_zero_state :: app_state where
  \<comment> \<open>\<open>ready_state\<close> with the rate set to \<open>-0\<close>\<close>
  "minus_zero_state = ready_state\<lparr>settings := (settings ready_state)\<lparr>fps := NegZero\<rparr>\<rparr>"

definition stall_env :: env where
  "stall_env = env0\<lparr>seeked := never_seeked\<rparr>"



section \<open>Facts about binary64 rounding\<close>

lemma two_powi_pos [simp]: "0 < (2::rat) powi a"
  by simp

lemma two_powi_le: "a \<le> b \<Longrightarrow> (2::rat) powi a \<le> 2 powi b"
  by (rule power_int_increasing) simp_all

lemma two_powi_less: "a < b \<Longrightarrow> (2::rat) powi a < 2 powi b"
  by (rule power_int_strict_increasing) simp_all

lemma two_powi_less_D: "(2::rat) powi a < 2 powi b \<Longrightarrow> a < b"
  using two_powi_le[of b a] by (cases "a < b") auto

lemma two_powi_le_D: "(2::rat) powi a \<le> 2 powi b \<Longrightarrow> a \<le> b"
  using two_powi_less[of b a] by (cases "a \<le> b") auto

lemma two_powi_add: "(2::rat) powi (a + b) = 2 powi a * 2 powi b"
  by (rule power_int_add) simp

lemma two_powi_diff: "(2::rat) powi (a - b) = 2 powi a / 2 powi b"
  by (rule power_int_diff) simp


lemma ilog2_bounds:
  assumes "0 < q"
  shows "2 powi ilog2 q \<le> q" and "q < 2 powi (ilog2 q + 1)"
proof -
  obtain a b where ab: "quotient_of q = (a, b)" by (cases "quotient_of q")
  then have b: "0 < b" and q: "q = of_int a / of_int b"
    by (auto simp: quotient_of_denom_pos quotient_of_div)
  from assms q b have a: "0 < a" by (simp add: zero_less_divide_iff)
  define la lb where "la = floorlog 2 (nat a)" and "lb = floorlog 2 (nat b)"
  have A: "2 ^ (la - 1) \<le> nat a" "nat a < 2 ^ la" and B: "2 ^ (lb - 1) \<le> nat b" "nat b < 2 ^ lb"
    using floorlog_bounds[of "nat a" 2] floorlog_bounds[of "nat b" 2] a b
    by (auto simp: la_def lb_def)
  have la: "0 < la" and lb: "0 < lb"
    using a b by (auto simp: la_def lb_def floorlog_eq_zero_iff intro: Nat.gr0I)
  have cast: "\<And>n k. 0 < k \<Longrightarrow> (2::nat) ^ n \<le> nat k \<longleftrightarrow> (2::rat) ^ n \<le> of_int k"
    "\<And>n k. 0 < k \<Longrightarrow> nat k < (2::nat) ^ n \<longleftrightarrow> of_int k < (2::rat) ^ n"
  proof -
    fix n :: nat and k :: int
    assume k: "0 < k"
    have "(2::nat) ^ n \<le> nat k \<longleftrightarrow> (2::int) ^ n \<le> k"
      using k by (simp add: le_nat_iff)
    also have "\<dots> \<longleftrightarrow> (of_int (2 ^ n) :: rat) \<le> of_int k"
      by (simp only: of_int_le_iff)
    finally show "(2::nat) ^ n \<le> nat k \<longleftrightarrow> (2::rat) ^ n \<le> of_int k" by simp
    have "nat k < (2::nat) ^ n \<longleftrightarrow> k < (2::int) ^ n"
      using k by (simp add: nat_less_iff)
    also have "\<dots> \<longleftrightarrow> (of_int k :: rat) < of_int (2 ^ n)"
      by (simp only: of_int_less_iff)
    finally show "nat k < (2::nat) ^ n \<longleftrightarrow> of_int k < (2::rat) ^ n" by simp
  qed
  have pl: "(2::rat) powi (int la - 1) = 2 ^ (la - 1)" "(2::rat) powi (int la) = 2 ^ la"
    "(2::rat) powi (int lb - 1) = 2 ^ (lb - 1)" "(2::rat) powi (int lb) = 2 ^ lb"
    using la lb by (simp_all add: power_int_def nat_diff_distrib)
  have ra: "(2::rat) powi (int la - 1) \<le> of_int a" "of_int a < (2::rat) powi (int la)"
    using A a by (simp_all add: cast pl)
  have rb: "(2::rat) powi (int lb - 1) \<le> of_int b" "of_int b < (2::rat) powi (int lb)"
    using B b by (simp_all add: cast pl)
  have bp: "0 < (of_int b :: rat)" using b by simp
  have "q < 2 powi (int la) / of_int b"
    unfolding q using ra(2) bp by (simp add: divide_strict_right_mono)
  also have "\<dots> \<le> 2 powi (int la) / 2 powi (int lb - 1)"
    using rb(1) bp by (intro divide_left_mono) (simp_all add: zero_less_mult_iff)
  also have "\<dots> = 2 powi (int la - (int lb - 1))"
    by (simp only: two_powi_diff)
  also have "\<dots> = 2 powi (int la - int lb + 1)"
    by (rule arg_cong[where f = "\<lambda>x. 2 powi x"]) simp
  finally have up: "q < 2 powi (int la - int lb + 1)" .
  have "(2::rat) powi (int la - int lb - 1) = 2 powi ((int la - 1) - int lb)"
    by (rule arg_cong[where f = "\<lambda>x. 2 powi x"]) simp
  also have "\<dots> = 2 powi (int la - 1) / 2 powi (int lb)"
    by (simp only: two_powi_diff)
  also have "\<dots> < 2 powi (int la - 1) / of_int b"
    using rb(2) bp by (intro divide_strict_left_mono) simp_all
  also have "\<dots> \<le> q"
    unfolding q using ra(1) bp by (simp add: divide_right_mono)
  finally have lo: "2 powi (int la - int lb - 1) < q" .
  have d: "ilog2 q = (if 2 powi (int la - int lb) \<le> q then int la - int lb else int la - int lb - 1)"
    by (simp add: ilog2_def ab la_def lb_def Let_def)
  show "2 powi ilog2 q \<le> q" using lo by (simp add: d)
  show "q < 2 powi (ilog2 q + 1)" using up by (auto simp: d not_le)
qed

lemma ilog2_unique:
  assumes "2 powi k \<le> q" "q < 2 powi (k + 1)"
  shows "ilog2 q = k"
proof -
  have q: "0 < q" using assms(1) two_powi_pos[of k] by linarith
  from ilog2_bounds[OF q] assms have "(2::rat) powi ilog2 q < 2 powi (k + 1)" "(2::rat) powi k < 2 powi (ilog2 q + 1)"
    by linarith+
  then have "ilog2 q < k + 1" "k < ilog2 q + 1"
    by (auto dest: two_powi_less_D)
  then show ?thesis by simp
qed

lemma ilog2_mono:
  assumes "0 < p" "p \<le> q"
  shows "ilog2 p \<le> ilog2 q"
proof -
  have q: "0 < q" using assms by simp
  from ilog2_bounds(1)[OF assms(1)] ilog2_bounds(2)[OF q] assms(2)
  have "(2::rat) powi ilog2 p < 2 powi (ilog2 q + 1)" by linarith
  then show ?thesis by (auto dest: two_powi_less_D)
qed

lemma expo_ge [simp]: "- 1074 \<le> expo q"
  by (simp add: expo_def)

lemma expo_upper:
  assumes "0 < q"
  shows "q < 2 powi (expo q + 53)"
proof -
  have "q < 2 powi (ilog2 q + 1)" using ilog2_bounds(2)[OF assms] .
  also have "\<dots> \<le> 2 powi (expo q + 53)"
    using assms by (intro two_powi_le) (simp add: expo_def)
  finally show ?thesis .
qed

lemma expo_lower:
  assumes "0 < q" "- 1074 < expo q"
  shows "2 powi (expo q + 52) \<le> q"
proof -
  from assms have "expo q = ilog2 q - 52" by (simp add: expo_def max_def split: if_splits)
  with ilog2_bounds(1)[OF assms(1)] show ?thesis by simp
qed

lemma expo_mono:
  assumes "0 < p" "p \<le> q"
  shows "expo p \<le> expo q"
  using ilog2_mono[OF assms] assms by (simp add: expo_def)

lemma expo_eqI:
  assumes "0 < q" "2 powi (e + 52) \<le> q" "q < 2 powi (e + 53)" "- 1074 \<le> e"
  shows "expo q = e"
proof -
  have "ilog2 q = e + 52" using assms(2,3) by (intro ilog2_unique) (simp_all add: add.commute)
  then show ?thesis using assms(1,4) by (simp add: expo_def)
qed

lemma expo_subnormal:
  assumes "0 < q" "q < 2 powi (- 1022)"
  shows "expo q = - 1074"
proof -
  from ilog2_bounds(1)[OF assms(1)] assms(2) have "(2::rat) powi ilog2 q < 2 powi (- 1022)" by linarith
  then have "ilog2 q < - 1022" by (rule two_powi_less_D)
  then show ?thesis using assms(1) by (simp add: expo_def)
qed

text \<open>Rounding to the nearest integer.\<close>

lemma rne_of_int [simp]: "rne (of_int m) = m"
  by (simp add: rne_def)

lemma rne_floor_le: "\<lfloor>x\<rfloor> \<le> rne x"
  by (simp add: rne_def Let_def)

lemma rne_ge: "of_int k \<le> x \<Longrightarrow> k \<le> rne x"
proof -
  assume "of_int k \<le> x"
  then have "k \<le> \<lfloor>x\<rfloor>" by (simp add: le_floor_iff)
  with rne_floor_le[of x] show ?thesis by linarith
qed

lemma rne_le_ceiling: "rne x \<le> \<lfloor>x\<rfloor> + 1"
  by (simp add: rne_def Let_def)

lemma rne_le: "x \<le> of_int k \<Longrightarrow> rne x \<le> k"
proof (cases "x = of_int k")
  case True
  then show ?thesis by simp
next
  case False
  assume "x \<le> of_int k"
  with False have "x < of_int k" by simp
  then have "\<lfloor>x\<rfloor> < k" by (simp add: floor_less_iff)
  with rne_le_ceiling[of x] show ?thesis by simp
qed

lemma rne_upper: "of_int (rne x) \<le> x + 1 / 2"
proof -
  define f where "f = \<lfloor>x\<rfloor>"
  have f: "of_int f \<le> x" by (simp add: f_def)
  consider "x - of_int f < 1 / 2" | "1 / 2 < x - of_int f" | "x - of_int f = 1 / 2"
    by linarith
  then show ?thesis
  proof cases
    case 1
    then have "rne x = f" by (simp add: rne_def Let_def f_def)
    with f show ?thesis by simp
  next
    case 2
    then have "rne x = f + 1" by (simp add: rne_def Let_def f_def)
    with 2 show ?thesis by simp
  next
    case 3
    then have "rne x = f \<or> rne x = f + 1" by (simp add: rne_def Let_def f_def)
    with 3 f show ?thesis by auto
  qed
qed

lemma rne_gt: "of_int k + 1 / 2 < x \<Longrightarrow> k + 1 \<le> rne x"
proof -
  assume a: "of_int k + 1 / 2 < x"
  then have "of_int k \<le> x" by simp
  then have k: "k \<le> \<lfloor>x\<rfloor>" by (simp add: le_floor_iff)
  show ?thesis
  proof (cases "k = \<lfloor>x\<rfloor>")
    case True
    with a have "1 / 2 < x - of_int \<lfloor>x\<rfloor>" by simp
    then show ?thesis using True by (simp add: rne_def Let_def)
  next
    case False
    with k have "k + 1 \<le> \<lfloor>x\<rfloor>" by simp
    with rne_floor_le[of x] show ?thesis by simp
  qed
qed

lemma rne_eqI:
  assumes "of_int m - 1 / 2 < x" "x < of_int m + 1 / 2"
  shows "rne x = m"
proof (cases "of_int m \<le> x")
  case True
  with assms(2) have "\<lfloor>x\<rfloor> = m" by (intro floor_unique) simp_all
  with assms(2) show ?thesis by (simp add: rne_def Let_def)
next
  case False
  with assms(1) have "\<lfloor>x\<rfloor> = m - 1" by (intro floor_unique) simp_all
  with assms(1) show ?thesis by (simp add: rne_def Let_def)
qed



text \<open>Rounding of positive rationals to binary64.\<close>

lemma div_powi_eq: "q = a * (2::rat) powi e \<Longrightarrow> q / 2 powi e = a"
  by simp

lemma mult_powi_eq: "q / (2::rat) powi e = a \<Longrightarrow> q = a * 2 powi e"
  by auto

lemma rnd_nonneg: "0 \<le> q \<Longrightarrow> 0 \<le> rnd q"
  unfolding rnd_def by (intro mult_nonneg_nonneg) (simp_all add: rne_ge)

lemma fl_pos:
  assumes "0 < q"
  shows "fl q = (if 2 powi 1024 \<le> rnd q then PosInf else if rnd q = 0 then Fin 0 else Fin (rnd q))"
proof -
  have "0 \<le> rnd q" using assms by (intro rnd_nonneg) simp
  moreover have "0 < (2::rat) powi 1024" by simp
  ultimately have "\<not> rnd q \<le> - (2 powi 1024)" by linarith
  with assms show ?thesis by (simp add: fl_def Let_def)
qed

lemma is_doubleD:
  assumes "is_double q" "0 < q"
  obtains m where "q = of_int m * 2 powi expo q" "0 < m" "m < 2 ^ 53" "q < 2 powi 1024"
proof -
  let ?e = "expo q"
  from assms have int: "of_int \<lfloor>q / 2 powi ?e\<rfloor> = q / 2 powi ?e" and lt: "q < 2 powi 1024"
    by (simp_all add: is_double_def)
  define m where "m = \<lfloor>q / 2 powi ?e\<rfloor>"
  have q: "q = of_int m * 2 powi ?e"
    unfolding m_def by (rule mult_powi_eq) (simp only: int)
  have "0 < of_int m * (2::rat) powi ?e" using assms(2) q by simp
  then have m0: "0 < m"
    using two_powi_pos[of ?e] by (auto simp: zero_less_mult_iff simp del: two_powi_pos zero_less_power_int)
  have "of_int m * 2 powi ?e < (2::rat) powi (?e + 53)"
    using expo_upper[OF assms(2)] q[symmetric] by simp
  also have "\<dots> = 2 ^ 53 * 2 powi ?e" by (simp add: two_powi_add)
  finally have "(of_int m :: rat) < 2 ^ 53" by simp
  then have "(of_int m :: rat) < of_int (2 ^ 53)" by simp
  then have "m < 2 ^ 53" by (simp only: of_int_less_iff)
  from that[OF q m0 this lt] show thesis .
qed

lemma int_mult_powi:
  assumes "e' \<le> e"
  shows "\<exists>k::int. of_int m * (2::rat) powi e = of_int k * 2 powi e'"
proof -
  have "(2::rat) powi e = 2 powi (e - e') * 2 powi e'"
    by (simp add: two_powi_add[symmetric])
  also have "(2::rat) powi (e - e') = of_int (2 ^ nat (e - e'))"
    using assms by (simp add: power_int_def)
  finally have "of_int m * (2::rat) powi e = of_int (m * 2 ^ nat (e - e')) * 2 powi e'"
    by simp
  then show ?thesis by blast
qed

lemma is_doubleI:
  assumes q: "q = of_int m * 2 powi e" and m: "0 < m" "m < 2 ^ 53" and e: "- 1074 \<le> e"
    and lt: "q < 2 powi 1024"
  shows "is_double q"
proof -
  have q0: "0 < q" using q m(1) by simp
  have "(of_int m :: rat) < of_int (2 ^ 53)" using m(2) by (simp only: of_int_less_iff)
  then have "q < 2 ^ 53 * 2 powi e" unfolding q by simp
  also have "\<dots> = 2 powi (e + 53)" by (simp add: two_powi_add)
  finally have "q < 2 powi (e + 53)" .
  with ilog2_bounds(1)[OF q0] have "(2::rat) powi ilog2 q < 2 powi (e + 53)" by linarith
  then have "ilog2 q < e + 53" by (rule two_powi_less_D)
  with e q0 have "expo q \<le> e" by (simp add: expo_def)
  from int_mult_powi[OF this, of m] obtain k :: int where "q = of_int k * 2 powi expo q"
    using q by auto
  then have "q / 2 powi expo q = of_int k" by (rule div_powi_eq)
  then show ?thesis using lt q0 by (simp add: is_double_def)
qed

lemma rnd_double:
  assumes "is_double q" "0 < q"
  shows "rnd q = q"
proof -
  from is_doubleD[OF assms] obtain m where "q = of_int m * 2 powi expo q" by blast
  then have "q / 2 powi expo q = of_int m" by (rule div_powi_eq)
  then have "rnd q = of_int m * 2 powi expo q" by (simp add: rnd_def)
  with \<open>q = of_int m * 2 powi expo q\<close> show ?thesis by simp
qed


lemma fl_eqI:
  assumes "0 < q" "2 powi (e + 52) \<le> q" "q < 2 powi (e + 53)" "- 1074 \<le> e"
    and "rne (q / 2 powi e) = m" "0 < m" "of_int m * 2 powi e < (2::rat) powi 1024"
  shows "fl q = Fin (of_int m * 2 powi e)"
proof -
  have "expo q = e" using assms(1-4) by (rule expo_eqI)
  then have "rnd q = of_int m * 2 powi e" using assms(5) by (simp add: rnd_def)
  moreover have "0 < of_int m * (2::rat) powi e" using assms(6) by simp
  ultimately show ?thesis using assms(1,7) by (simp add: fl_pos)
qed

lemma fl_eqI_subnormal:
  assumes "0 < q" "q < 2 powi (- 1022)" "rne (q / 2 powi (- 1074)) = m" "0 < m"
  shows "fl q = Fin (of_int m * 2 powi (- 1074))"
proof -
  have e: "expo q = - 1074" using assms(1,2) by (rule expo_subnormal)
  then have r: "rnd q = of_int m * 2 powi (- 1074)" using assms(3) by (simp add: rnd_def)
  have "of_int (rne (q / 2 powi (- 1074))) \<le> q / 2 powi (- 1074) + 1 / 2" by (rule rne_upper)
  moreover have "q / 2 powi (- 1074) < 2 powi (- 1022) / 2 powi (- 1074)"
    using assms(2) by (simp add: divide_strict_right_mono)
  moreover have "(2::rat) powi (- 1022) / 2 powi (- 1074) = 2 powi 52"
    by (simp only: two_powi_diff[symmetric]) simp
  ultimately have "(of_int m :: rat) < 2 powi 52 + 1 / 2" using assms(3) by simp
  then have "(of_int m :: rat) * 2 powi (- 1074) < (2 powi 52 + 1 / 2) * 2 powi (- 1074)"
    by simp
  also have "\<dots> \<le> (2 powi 53) * 2 powi (- 1074)"
    by (intro mult_right_mono) simp_all
  also have "\<dots> = 2 powi (- 1021)" by (simp only: two_powi_add[symmetric]) simp
  also have "\<dots> < 2 powi 1024" by (intro two_powi_less) simp
  finally have "of_int m * 2 powi (- 1074) < (2::rat) powi 1024" .
  moreover have "0 < of_int m * (2::rat) powi (- 1074)" using assms(4) by simp
  ultimately show ?thesis using assms(1) r by (simp add: fl_pos)
qed

lemma rnd_is_double:
  assumes "0 < q" "rnd q < 2 powi 1024" "rnd q \<noteq> 0"
  shows "is_double (rnd q)"
proof -
  define e where "e = expo q"
  define m where "m = rne (q / 2 powi e)"
  have r: "rnd q = of_int m * 2 powi e" by (simp add: rnd_def m_def e_def)
  have e: "- 1074 \<le> e" by (simp add: e_def)
  have "0 \<le> q / 2 powi e" using assms(1) by simp
  then have "0 \<le> m" unfolding m_def by (intro rne_ge) simp
  moreover have "m \<noteq> 0" using assms(3) r by auto
  ultimately have m0: "0 < m" by simp
  have "q < 2 powi (e + 53)" unfolding e_def by (rule expo_upper[OF assms(1)])
  also have "\<dots> = 2 ^ 53 * 2 powi e" by (simp add: two_powi_add)
  finally have "q / 2 powi e < 2 ^ 53" by (simp add: pos_divide_less_eq)
  then have "q / 2 powi e \<le> of_int (2 ^ 53)" by simp
  then have m53: "m \<le> 2 ^ 53" unfolding m_def by (rule rne_le)
  show ?thesis
  proof (cases "m = 2 ^ 53")
    case False
    with m53 have "m < 2 ^ 53" by simp
    from is_doubleI[OF r m0 this e assms(2)] show ?thesis .
  next
    case True
    have "rnd q = of_int (2 ^ 52) * 2 powi (e + 1)"
      unfolding r True by (simp add: two_powi_add)
    from is_doubleI[OF this _ _ _ assms(2)] e show ?thesis by simp
  qed
qed

lemma double_grid:
  assumes "is_double x" "0 \<le> x"
  shows "\<exists>k::int. x = of_int k * 2 powi (- 1074)"
proof (cases "x = 0")
  case True
  then show ?thesis by (intro exI[of _ 0]) simp
next
  case False
  with assms(2) have "0 < x" by simp
  from is_doubleD[OF assms(1) this] obtain m where "x = of_int m * 2 powi expo x" by blast
  moreover from int_mult_powi[of "- 1074" "expo x" m]
  obtain k :: int where "of_int m * (2::rat) powi expo x = of_int k * 2 powi (- 1074)" by auto
  ultimately show ?thesis by auto
qed

lemma double_ge_min:
  assumes "is_double x" "0 < x"
  shows "2 powi (- 1074) \<le> x"
proof -
  from is_doubleD[OF assms] obtain m where m: "x = of_int m * 2 powi expo x" "0 < m" by blast
  have "(2::rat) powi (- 1074) \<le> 2 powi expo x" by (intro two_powi_le) simp
  also have "\<dots> = 1 * 2 powi expo x" by simp
  also have "\<dots> \<le> of_int m * 2 powi expo x"
    using m(2) by (intro mult_right_mono) simp_all
  finally show ?thesis using m(1) by simp
qed

lemma rnd_add_le:
  assumes "is_double x" "0 \<le> x" "is_double i" "0 < i"
  shows "rnd (x + i) \<le> (x + i) * (1 + 1 / 2 ^ 53)"
proof -
  define q where "q = x + i"
  define e where "e = expo q"
  have q0: "0 < q" using assms(2,4) by (simp add: q_def)
  show ?thesis
  proof (cases "e = - 1074")
    case True
    define g where "g = (2::rat) powi (- 1074)"
    have g0: "0 < g" by (simp only: g_def two_powi_pos)
    have i0: "0 \<le> i" using assms(4) by simp
    from double_grid[OF assms(1,2)] obtain k :: int where k: "x = of_int k * g"
      unfolding g_def by blast
    from double_grid[OF assms(3) i0] obtain l :: int where l: "i = of_int l * g"
      unfolding g_def by blast
    have qg: "q = of_int (k + l) * g" by (simp add: q_def k l algebra_simps)
    have d: "q / g = of_int (k + l)" using g0 by (simp add: qg)
    have "rnd q = of_int (rne (q / g)) * g"
      unfolding rnd_def g_def using True by (simp only: e_def)
    also have "\<dots> = of_int (rne (of_int (k + l))) * g" by (simp only: d)
    also have "\<dots> = of_int (k + l) * g" by (simp only: rne_of_int)
    also have "\<dots> = q" by (simp only: qg)
    finally have "rnd q = q" .
    moreover have "q \<le> q * (1 + 1 / 2 ^ 53)" using q0 by (simp add: algebra_simps)
    ultimately show ?thesis by (simp add: q_def)
  next
    case False
    moreover have "- 1074 \<le> e" by (simp add: e_def)
    ultimately have "- 1074 < e" by linarith
    from expo_lower[OF q0] this have lo: "2 powi (e + 52) \<le> q" by (simp add: e_def)
    have "rnd q = of_int (rne (q / 2 powi e)) * 2 powi e" by (simp add: rnd_def e_def)
    also have "\<dots> \<le> (q / 2 powi e + 1 / 2) * 2 powi e"
      by (intro mult_right_mono rne_upper) simp
    also have "\<dots> = q + 2 powi e / 2" by (simp add: algebra_simps)
    also have "2 powi e / 2 = (2::rat) powi (e + 52) / 2 ^ 53"
      by (simp add: two_powi_add)
    also have "q + (2::rat) powi (e + 52) / 2 ^ 53 \<le> q + q / 2 ^ 53"
      using lo by (simp add: divide_right_mono)
    also have "\<dots> = q * (1 + 1 / 2 ^ 53)" by (simp add: algebra_simps)
    finally show ?thesis by (simp add: q_def)
  qed
qed

lemma rnd_add_gt:
  assumes "is_double x" "0 \<le> x" "is_double i" "0 < i" "x \<le> 2 ^ 52 * i"
  shows "x < rnd (x + i)"
proof (cases "x = 0")
  case True
  then show ?thesis using rnd_double[OF assms(3,4)] assms(4) by simp
next
  case False
  with assms(2) have x0: "0 < x" by simp
  define q where "q = x + i"
  define e where "e = expo q"
  have q0: "0 < q" and xq: "x \<le> q" using assms(2,4) by (simp_all add: q_def)
  from is_doubleD[OF assms(1) x0] obtain M where
    M: "x = of_int M * 2 powi expo x" "0 < M" "M < 2 ^ 53" by blast
  have ee: "expo x \<le> e" unfolding e_def by (rule expo_mono[OF x0 xq])
  have r: "rnd q = of_int (rne (q / 2 powi e)) * 2 powi e" by (simp add: rnd_def e_def)
  show ?thesis
  proof (cases "expo x = e")
    case False
    with ee have lt: "expo x < e" by simp
    then have "- 1074 < e" using expo_ge[of x] by linarith
    from expo_lower[OF q0] this have lo: "2 powi (e + 52) \<le> q" by (simp add: e_def)
    have "x < 2 powi (expo x + 53)" by (rule expo_upper[OF x0])
    also have "\<dots> \<le> 2 powi (e + 52)" using lt by (intro two_powi_le) simp
    also have "\<dots> = of_int (2 ^ 52) * 2 powi e" by (simp add: two_powi_add)
    also have "\<dots> \<le> of_int (rne (q / 2 powi e)) * 2 powi e"
    proof (intro mult_right_mono)
      have "(2::rat) ^ 52 * 2 powi e \<le> q" using lo by (simp add: two_powi_add)
      then have "of_int (2 ^ 52) \<le> q / 2 powi e" by (simp add: pos_le_divide_eq)
      then have "2 ^ 52 \<le> rne (q / 2 powi e)" by (rule rne_ge)
      then show "(of_int (2 ^ 52) :: rat) \<le> of_int (rne (q / 2 powi e))"
        by (simp only: of_int_le_iff)
    qed simp
    finally have "x < rnd q" by (simp only: r)
    then show ?thesis by (simp only: q_def)
  next
    case True
    have half: "2 powi e < 2 * i"
    proof (cases "e = - 1074")
      case True
      with double_ge_min[OF assms(3,4)] assms(4) show ?thesis by simp
    next
      case False
      moreover have "- 1074 \<le> expo x" by simp
      ultimately have "- 1074 < expo x" using \<open>expo x = e\<close> by linarith
      from expo_lower[OF x0 this] have "2 powi (e + 52) \<le> x" by (simp add: \<open>expo x = e\<close>)
      with assms(5) have "(2::rat) ^ 52 * 2 powi e \<le> 2 ^ 52 * i" by (simp add: two_powi_add)
      then have "2 powi e \<le> i" by simp
      with assms(4) show ?thesis by simp
    qed
    have x: "x = of_int M * 2 powi e" using M(1) True by simp
    have "q / 2 powi e = of_int M + i / 2 powi e"
      unfolding q_def x by (simp add: add_divide_distrib)
    moreover have "1 / 2 < i / 2 powi e" using half by (simp add: pos_less_divide_eq)
    ultimately have "of_int M + 1 / 2 < q / 2 powi e" by simp
    then have "M + 1 \<le> rne (q / 2 powi e)" by (rule rne_gt)
    then have "(of_int (M + 1) :: rat) \<le> of_int (rne (q / 2 powi e))"
      by (simp only: of_int_le_iff)
    then have "of_int (M + 1) * 2 powi e \<le> rnd q"
      unfolding r by (intro mult_right_mono) simp_all
    moreover have "x < of_int (M + 1) * 2 powi e" unfolding x by simp
    ultimately show ?thesis by (simp add: q_def)
  qed
qed

lemma fl_nonzero:
  assumes "2 powi (- 1074) \<le> q"
  shows "rnd q \<noteq> 0" and "0 < rnd q"
proof -
  have q0: "0 < q" using assms two_powi_pos[of "- 1074"] by linarith
  have "(2::rat) powi (- 1074) \<le> 2 powi expo q" by (intro two_powi_le) simp
  have "1 \<le> q / 2 powi expo q"
  proof (cases "expo q = - 1074")
    case True
    with assms show ?thesis by (simp add: pos_le_divide_eq)
  next
    case False
    have "- 1074 \<le> expo q" by simp
    with False have "- 1074 < expo q" by linarith
    from expo_lower[OF q0 this] have "2 ^ 52 * 2 powi expo q \<le> q" by (simp add: two_powi_add)
    then have "(2::rat) ^ 52 \<le> q / 2 powi expo q" by (simp add: pos_le_divide_eq)
    moreover have "(1::rat) \<le> 2 ^ 52" by simp
    ultimately show ?thesis by linarith
  qed
  then have "of_int 1 \<le> q / 2 powi expo q" by simp
  then have "1 \<le> rne (q / 2 powi expo q)" by (rule rne_ge)
  then have "0 < (of_int (rne (q / 2 powi expo q)) :: rat)" by simp
  then show "0 < rnd q" unfolding rnd_def by simp
  then show "rnd q \<noteq> 0" by simp
qed

text \<open>Timestamps: repeated addition of a positive interval.\<close>

lemma drift_0 [simp]: "drift 0 i = 0"
  by (simp add: drift_def)

lemma drift_nonneg: "0 \<le> i \<Longrightarrow> 0 \<le> drift k i"
  by (simp add: drift_def)

lemma drift_mono:
  assumes "0 \<le> i" "k \<le> l"
  shows "drift k i \<le> drift l i"
proof -
  have "(of_nat k :: rat) \<le> of_nat l" using assms(2) by simp
  then have "of_nat k * i \<le> of_nat l * i" "1 + (of_nat k :: rat) / 2 ^ 53 \<le> 1 + of_nat l / 2 ^ 53"
    using assms(1) by (simp_all add: mult_right_mono divide_right_mono)
  then show ?thesis
    unfolding drift_def using assms(1) by (intro mult_mono) simp_all
qed

lemma drift_step:
  assumes "0 < i" "x \<le> drift k i" "k \<le> 2 ^ 53"
  shows "(x + i) * (1 + 1 / 2 ^ 53) \<le> drift (Suc k) i"
proof -
  define a :: rat where "a = of_nat k"
  define u :: rat where "u = 1 / 2 ^ 53"
  have a: "0 \<le> a" by (simp add: a_def)
  have "(of_nat k :: rat) \<le> of_nat (2 ^ 53)" using assms(3) by (simp only: of_nat_le_iff)
  then have au: "a * u \<le> 1" by (simp add: a_def u_def)
  have u: "0 < u" by (simp add: u_def)
  have x: "x \<le> a * i * (1 + a * u)" using assms(2) by (simp add: drift_def a_def u_def)
  have "(x + i) * (1 + u) \<le> (a * i * (1 + a * u) + i) * (1 + u)"
    using x u by (intro mult_right_mono) simp_all
  also have "\<dots> = (a + 1) * i * (1 + (a + 1) * u) - i * u * a * (1 - a * u)"
    by (simp add: algebra_simps power2_eq_square)
  also have "\<dots> \<le> (a + 1) * i * (1 + (a + 1) * u)"
  proof -
    have "0 \<le> i * u * a * (1 - a * u)"
      using assms(1) u a au by (intro mult_nonneg_nonneg) simp_all
    then show ?thesis by simp
  qed
  also have "\<dots> = drift (Suc k) i"
    by (simp add: drift_def a_def u_def algebra_simps)
  finally show ?thesis by (simp add: u_def)
qed

lemma drift_le_double:
  assumes "0 \<le> i" "k \<le> 300"
  shows "drift k i \<le> 2 ^ 52 * i"
proof -
  have k: "(of_nat k :: rat) \<le> 300" using assms(2) by simp
  then have "1 + (of_nat k :: rat) / 2 ^ 53 \<le> 2" by simp
  with k have "of_nat k * (1 + (of_nat k :: rat) / 2 ^ 53) \<le> 300 * 2"
    by (intro mult_mono) simp_all
  then have "of_nat k * (1 + (of_nat k :: rat) / 2 ^ 53) * i \<le> 300 * 2 * i"
    using assms(1) by (intro mult_right_mono) simp_all
  also have "\<dots> \<le> 2 ^ 52 * i" using assms(1) by (intro mult_right_mono) simp_all
  finally show ?thesis by (simp add: drift_def algebra_simps)
qed

text \<open>One addition of a positive interval to a timestamp.\<close>

lemma js_add_pos:
  assumes "is_double x" "0 \<le> x" "is_double i" "0 < i" "x \<le> 2 ^ 52 * i"
  shows "(js_add (Fin x) (Fin i) = PosInf \<and> 2 powi 1024 \<le> (x + i) * (1 + 1 / 2 ^ 53))
         \<or> (\<exists>y. js_add (Fin x) (Fin i) = Fin y \<and> is_double y \<and> x < y
                \<and> y \<le> (x + i) * (1 + 1 / 2 ^ 53))"
proof -
  have q: "0 < x + i" using assms(2,4) by simp
  have gt: "x < rnd (x + i)" by (rule rnd_add_gt[OF assms])
  have le: "rnd (x + i) \<le> (x + i) * (1 + 1 / 2 ^ 53)" by (rule rnd_add_le[OF assms(1-4)])
  have nz: "rnd (x + i) \<noteq> 0" using gt assms(2) by simp
  have add: "js_add (Fin x) (Fin i) = fl (x + i)" using q by simp
  show ?thesis
  proof (cases "2 powi 1024 \<le> rnd (x + i)")
    case True
    then have "fl (x + i) = PosInf" using q by (simp add: fl_pos)
    with True le add show ?thesis by simp
  next
    case False
    then have "fl (x + i) = Fin (rnd (x + i))" using q nz by (simp add: fl_pos)
    moreover have "is_double (rnd (x + i))" using False nz by (intro rnd_is_double[OF q]) simp_all
    ultimately show ?thesis using gt le add by simp
  qed
qed

lemma nth_time_invariant:
  assumes "is_double i" "0 < i" "k \<le> 300"
  shows "(nth_time (Fin 0) (Fin i) k = PosInf \<and> 2 powi 1024 \<le> drift k i)
         \<or> (\<exists>x. nth_time (Fin 0) (Fin i) k = Fin x \<and> is_double x \<and> 0 \<le> x \<and> x \<le> drift k i)"
  using assms(3)
proof (induction k)
  case 0
  then show ?case by (simp add: is_double_def)
next
  case (Suc k)
  then have k: "k \<le> 300" by simp
  have i0: "0 \<le> i" using assms(2) by simp
  from Suc.IH[OF k] show ?case
  proof
    assume inf: "nth_time (Fin 0) (Fin i) k = PosInf \<and> 2 powi 1024 \<le> drift k i"
    then have "nth_time (Fin 0) (Fin i) (Suc k) = PosInf" by simp
    moreover have "drift k i \<le> drift (Suc k) i" by (rule drift_mono[OF i0]) simp
    ultimately show ?thesis using inf by auto
  next
    assume "\<exists>x. nth_time (Fin 0) (Fin i) k = Fin x \<and> is_double x \<and> 0 \<le> x \<and> x \<le> drift k i"
    then obtain x where x: "nth_time (Fin 0) (Fin i) k = Fin x" "is_double x" "0 \<le> x"
      "x \<le> drift k i" by blast
    have x52: "x \<le> 2 ^ 52 * i" using x(4) drift_le_double[OF i0 k] by linarith
    have step: "(x + i) * (1 + 1 / 2 ^ 53) \<le> drift (Suc k) i"
      using k by (intro drift_step[OF assms(2) x(4)]) simp
    from js_add_pos[OF x(2,3) assms(1,2) x52] show ?thesis
    proof
      assume "js_add (Fin x) (Fin i) = PosInf \<and> 2 powi 1024 \<le> (x + i) * (1 + 1 / 2 ^ 53)"
      with step x(1) show ?thesis by auto
    next
      assume "\<exists>y. js_add (Fin x) (Fin i) = Fin y \<and> is_double y \<and> x < y
                \<and> y \<le> (x + i) * (1 + 1 / 2 ^ 53)"
      then obtain y where "js_add (Fin x) (Fin i) = Fin y" "is_double y" "x < y"
        "y \<le> (x + i) * (1 + 1 / 2 ^ 53)" by blast
      with step x(1,3) show ?thesis by (intro disjI2 exI[of _ y]) simp
    qed
  qed
qed


text \<open>Some roundings, computed.\<close>

lemma tenth: "js_div (Fin 1) (Fin 10) = Fin (3602879701896397 / 36028797018963968)"
proof -
  have "fl (1 / 10) = Fin (of_int 7205759403792794 * 2 powi (- 56))"
    by (rule fl_eqI) (simp_all add: rne_eqI)
  then show ?thesis by (simp add: js_div_def is_inf_def is_zero_def)
qed















lemma exact_round_350: "round (350 * 41 / 20 :: rat) = 718"
  unfolding round_def by (rule floor_unique) simp_all


lemma rne_neg: "rne (- x) = - rne x"
proof (cases "x = of_int \<lfloor>x\<rfloor>")
  case True
  then obtain m :: int where m: "x = of_int m" ..
  have "rne (of_int (- m)) = - m" by (rule rne_of_int)
  then show ?thesis by (simp add: m)
next
  case False
  define f where "f = \<lfloor>x\<rfloor>"
  define r where "r = x - of_int f"
  have "of_int f \<le> x" "x < of_int f + 1" using floor_correct[of x] by (simp_all add: f_def)
  moreover have "x \<noteq> of_int f" using False by (simp add: f_def)
  ultimately have r: "0 < r" "r < 1" unfolding r_def by linarith+
  have x: "x = of_int f + r" by (simp add: r_def)
  have fl: "\<lfloor>- x\<rfloor> = - f - 1"
    by (rule floor_unique) (use r in \<open>simp_all add: x\<close>)
  have r': "- x - of_int (- f - 1) = 1 - r" by (simp add: x)
  have pos: "rne x = (if r < 1 / 2 then f else if 1 / 2 < r then f + 1
                      else if even f then f else f + 1)"
    unfolding rne_def Let_def r_def f_def ..
  have neg: "rne (- x) = (if 1 - r < 1 / 2 then - f - 1 else if 1 / 2 < 1 - r then - f - 1 + 1
                      else if even (- f - 1) then - f - 1 else - f - 1 + 1)"
    unfolding rne_def Let_def fl r' ..
  consider "r < 1 / 2" | "1 / 2 < r" | "r = 1 / 2" by linarith
  then show ?thesis
  proof cases
    case 1
    then show ?thesis unfolding pos neg by simp
  next
    case 2
    then show ?thesis unfolding pos neg by simp
  next
    case 3
    then show ?thesis unfolding pos neg by simp
  qed
qed

lemma expo_neg: "expo (- q) = expo q"
  by (simp add: expo_def)

lemma rnd_neg: "rnd (- q) = - rnd q"
  by (simp add: rnd_def expo_neg rne_neg)

lemma fl_neg:
  assumes "0 < q" "fl q = Fin y" "0 < y"
  shows "fl (- q) = Fin (- y)"
proof -
  from assms(2,3) fl_pos[OF assms(1)] have y: "rnd q = y" "\<not> 2 powi 1024 \<le> y"
    by (auto split: if_splits)
  have "0 < (2::rat) powi 1024" by simp
  with assms(3) have "\<not> 2 powi 1024 \<le> - y" by linarith
  with assms(1,3) y show ?thesis
    by (simp add: fl_def Let_def rnd_neg)
qed






text \<open>The timestamps of a negative interval mirror those of the positive one.\<close>

lemma nth_time_negative:
  assumes "is_double i" "0 < i" "k \<le> 300" "nth_time (Fin 0) (Fin i) k = Fin x"
  shows "nth_time (Fin 0) (Fin (- i)) k = Fin (- x) \<and> 0 \<le> x"
  using assms(3,4)
proof (induction k arbitrary: x)
  case 0
  then show ?case by simp
next
  case (Suc k)
  then have k: "k \<le> 300" by simp
  have i0: "0 \<le> i" using assms(2) by simp
  from Suc.prems(2) have "nth_time (Fin 0) (Fin i) k \<noteq> PosInf" by auto
  with nth_time_invariant[OF assms(1,2) k] obtain x' where
    x': "nth_time (Fin 0) (Fin i) k = Fin x'" "is_double x'" "0 \<le> x'" "x' \<le> drift k i"
    by blast
  have x52: "x' \<le> 2 ^ 52 * i" using x'(4) drift_le_double[OF i0 k] by linarith
  have sum: "js_add (Fin x') (Fin i) = Fin x" using Suc.prems(2) x'(1) by simp
  with js_add_pos[OF x'(2,3) assms(1,2) x52] have lt: "x' < x" by auto
  have pos: "0 < x' + i" using x'(3) assms(2) by linarith
  then have "fl (x' + i) = Fin x" using sum by simp
  from fl_neg[OF pos this] lt x'(3) have neg: "fl (- (x' + i)) = Fin (- x)" by simp
  have eq: "- x' + - i = - (x' + i)" by simp
  have ne: "- x' + - i \<noteq> 0" using pos by linarith
  have "js_add (Fin (- x')) (Fin (- i)) = fl (- x' + - i)"
    using ne by (simp only: js_add.simps if_False)
  also have "\<dots> = Fin (- x)" by (simp only: eq neg)
  finally have "js_add (nth_time (Fin 0) (Fin (- i)) k) (Fin (- i)) = Fin (- x)"
    using Suc.IH[OF k x'(1)] by (simp only:)
  moreover have "0 \<le> x" using lt x'(3) by linarith
  ultimately show ?case by (simp only: nth_time.simps simp_thms)
qed

lemma fifth: "fl (1 / 5) = Fin (3602879701896397 / 18014398509481984)"
proof -
  have "fl (1 / 5) = Fin (of_int 7205759403792794 * 2 powi (- 55))"
    by (rule fl_eqI) (simp_all add: rne_eqI)
  then show ?thesis by simp
qed

lemma fifth_double: "is_double (3602879701896397 / 18014398509481984)"
  by (rule is_doubleI[where m = 7205759403792794 and e = "- 55"]) simp_all

lemma minus_fifth:
  "js_div (Fin 1) (Fin (- 5)) = Fin (- (3602879701896397 / 18014398509481984))"
proof -
  have "fl (- (1 / 5)) = Fin (- (3602879701896397 / 18014398509481984))"
    by (rule fl_neg[OF _ fifth]) simp_all
  then show ?thesis by (simp add: js_div_def is_inf_def is_zero_def)
qed

lemma minus_fifth_times:
  assumes "k \<le> 300"
  shows "\<exists>x. nth_time (Fin 0) (js_div (Fin 1) (Fin (- 5))) k = Fin (- x) \<and> 0 \<le> x"
proof -
  let ?i = "3602879701896397 / 18014398509481984 :: rat"
  have i: "0 < ?i" by simp
  have "drift k ?i \<le> drift 300 ?i" by (rule drift_mono) (use assms in simp_all)
  moreover have "drift 300 ?i < 61" by (simp add: drift_def)
  moreover have "(61::rat) < 2 powi 1024" by simp
  ultimately have "\<not> 2 powi 1024 \<le> drift k ?i" by linarith
  with nth_time_invariant[OF fifth_double i assms] obtain x where
    "nth_time (Fin 0) (Fin ?i) k = Fin x" by auto
  from nth_time_negative[OF fifth_double i assms this] show ?thesis
    unfolding minus_fifth by blast
qed

lemma tenth_times_finite:
  assumes "k \<le> 300"
  shows "is_finite (nth_time (Fin 0) (js_div (Fin 1) (Fin 10)) k)"
proof -
  let ?i = "3602879701896397 / 36028797018963968 :: rat"
  have i: "0 < ?i" by simp
  have d: "is_double ?i"
    by (rule is_doubleI[where m = 7205759403792794 and e = "- 56"]) simp_all
  have "drift k ?i \<le> drift 300 ?i" by (rule drift_mono) (use assms in simp_all)
  moreover have "drift 300 ?i < 31" by (simp add: drift_def)
  moreover have "(31::rat) < 2 powi 1024" by simp
  ultimately have "\<not> 2 powi 1024 \<le> drift k ?i" by linarith
  with nth_time_invariant[OF d i assms] show ?thesis unfolding tenth by auto
qed

section \<open>Facts about the browser\<close>

lemma trace_emit [simp]: "trace (emit e b) = trace b @ [e]"
  and object_urls_emit [simp]: "object_urls (emit e b) = object_urls b"
  and url_counter_emit [simp]: "url_counter (emit e b) = url_counter b"
  by (simp_all add: emit_def)

section \<open>Facts about the capture loop\<close>

lemma captureFrame_once_Scheduled:
  assumes "captureFrame_once j sk lv sb = Scheduled lv' sb'"
  shows "frameCount lv < maxFrames" and "frameCount lv' = Suc (frameCount lv)"
    and "currentTime lv' = js_add (currentTime lv) (job_interval j)"
  using assms
  by (auto simp: captureFrame_once_def Let_def split: prod.splits if_splits)

lemma captureFrame_once_exit:
  assumes "isProcessing s \<or> frameCount lv = 0 \<or> resultUrl s \<noteq> []"
    and "maxFrames \<le> frameCount lv \<or> js_ge (currentTime lv) (job_duration j)"
  shows "captureFrame_once j sk lv (s, b)
           = Finished Rendered (s\<lparr>loadingText := LoadingRendering\<rparr>, emit GifRender b)"
  using assms by (auto simp: captureFrame_once_def)

lemma captureFrame_once_throw:
  assumes "isProcessing s \<or> frameCount lv = 0 \<or> resultUrl s \<noteq> []"
    and "\<not> (maxFrames \<le> frameCount lv \<or> js_ge (currentTime lv) (job_duration j))"
    and "\<not> is_finite (currentTime lv)"
  shows "captureFrame_once j sk lv (s, b) = Finished SeekThrew (s, b)"
  using assms by (auto simp: captureFrame_once_def)

lemma captureFrame_once_frame:
  assumes "isProcessing s \<or> frameCount lv = 0 \<or> resultUrl s \<noteq> []"
    and "\<not> (maxFrames \<le> frameCount lv \<or> js_ge (currentTime lv) (job_duration j))"
    and "is_finite (currentTime lv)"
    and "sk (frameCount lv)"
  shows "captureFrame_once j sk lv (s, b)
           = Scheduled \<lparr>currentTime = js_add (currentTime lv) (job_interval j),
                        frameCount = Suc (frameCount lv)\<rparr>
               (s\<lparr>sourceVideoRef :=
                     map_option (\<lambda>v. v\<lparr>video_currentTime := currentTime lv\<rparr>) (sourceVideoRef s),
                   progressText := ProgressCapture
                     (js_round (js_mul (js_div (currentTime lv) (job_duration j)) (Fin 100)))
                     (Suc (frameCount lv))\<rparr>,
                b\<lparr>trace := trace b @ frame_events j (currentTime lv)\<rparr>)"
  using assms by (auto simp: captureFrame_once_def Let_def frame_events_def emit_def)

lemma captureFrame_once_cancel:
  assumes "\<not> isProcessing s" "0 < frameCount lv" "resultUrl s = []"
  shows "captureFrame_once j sk lv (s, b) = Finished Cancelled (s, b)"
  using assms by (simp add: captureFrame_once_def)

lemma captureFrame_once_stall:
  assumes "isProcessing s \<or> frameCount lv = 0 \<or> resultUrl s \<noteq> []"
    and "\<not> (maxFrames \<le> frameCount lv \<or> js_ge (currentTime lv) (job_duration j))"
    and "is_finite (currentTime lv)"
    and "\<not> sk (frameCount lv)"
  shows "captureFrame_once j sk lv (s, b)
           = Finished Stalled
               (s\<lparr>sourceVideoRef :=
                     map_option (\<lambda>v. v\<lparr>video_currentTime := currentTime lv\<rparr>) (sourceVideoRef s)\<rparr>,
                emit (VideoSeek (currentTime lv)) b)"
  using assms by (auto simp: captureFrame_once_def Let_def)

lemma nth_time_shift: "nth_time (js_add t i) i k = nth_time t i (Suc k)"
  by (induction k) simp_all

lemma sampled_Nil:
  "maxFrames \<le> n \<or> js_ge t d \<or> \<not> is_finite t \<Longrightarrow> sampled d i t n = []"
  by (subst sampled.simps) simp

lemma sampled_Cons:
  "\<not> (maxFrames \<le> n \<or> js_ge t d \<or> \<not> is_finite t)
     \<Longrightarrow> sampled d i t n = t # sampled d i (js_add t i) (Suc n)"
  by (subst sampled.simps) simp

lemma length_sampled: "length (sampled d i t n) \<le> maxFrames - n"
proof (induction d i t n rule: sampled.induct)
  case (1 d i t n)
  show ?case
  proof (cases "maxFrames \<le> n \<or> js_ge t d \<or> \<not> is_finite t")
    case True
    then show ?thesis by (simp add: sampled_Nil)
  next
    case False
    from "1.IH"[OF this] False have "Suc (length (sampled d i (js_add t i) (Suc n))) \<le> maxFrames - n"
      by linarith
    with False show ?thesis by (simp add: sampled_Cons)
  qed
qed

lemma sampled_nth: "sampled d i t n = map (nth_time t i) [0..<length (sampled d i t n)]"
proof (induction d i t n rule: sampled.induct)
  case (1 d i t n)
  show ?case
  proof (cases "maxFrames \<le> n \<or> js_ge t d \<or> \<not> is_finite t")
    case True
    then show ?thesis by (simp add: sampled_Nil)
  next
    case False
    have eq: "sampled d i t n = t # sampled d i (js_add t i) (Suc n)"
      using False by (rule sampled_Cons)
    have "map (nth_time t i) [0..<length (sampled d i t n)]
        = t # map (nth_time (js_add t i) i) [0..<length (sampled d i (js_add t i) (Suc n))]"
      by (simp add: eq map_upt_Suc nth_time_shift del: upt_Suc)
    with "1.IH"[OF False] eq show ?thesis by simp
  qed
qed

lemma sampled_below:
  "k < length (sampled d i t n)
     \<Longrightarrow> n + k < maxFrames \<and> \<not> js_ge (nth_time t i k) d \<and> is_finite (nth_time t i k)"
proof (induction d i t n arbitrary: k rule: sampled.induct)
  case (1 d i t n)
  show ?case
  proof (cases "maxFrames \<le> n \<or> js_ge t d \<or> \<not> is_finite t")
    case True
    with "1.prems" show ?thesis by (simp add: sampled_Nil)
  next
    case False
    have eq: "sampled d i t n = t # sampled d i (js_add t i) (Suc n)"
      using False by (rule sampled_Cons)
    show ?thesis
    proof (cases k)
      case 0
      with False show ?thesis by simp
    next
      case (Suc k')
      with "1.prems" eq have "k' < length (sampled d i (js_add t i) (Suc n))" by simp
      from "1.IH"[OF False this] Suc show ?thesis by (simp add: nth_time_shift)
    qed
  qed
qed

lemma sampled_stop:
  "maxFrames \<le> n + length (sampled d i t n)
     \<or> js_ge (nth_time t i (length (sampled d i t n))) d
     \<or> \<not> is_finite (nth_time t i (length (sampled d i t n)))"
proof (induction d i t n rule: sampled.induct)
  case (1 d i t n)
  show ?case
  proof (cases "maxFrames \<le> n \<or> js_ge t d \<or> \<not> is_finite t")
    case True
    then show ?thesis by (auto simp: sampled_Nil)
  next
    case False
    have eq: "sampled d i t n = t # sampled d i (js_add t i) (Suc n)"
      using False by (rule sampled_Cons)
    from "1.IH"[OF False] show ?thesis by (simp add: eq nth_time_shift)
  qed
qed

lemma sampled_full:
  assumes "\<forall>k<maxFrames. \<not> js_ge (nth_time t i k) d \<and> is_finite (nth_time t i k)"
  shows "length (sampled d i t 0) = maxFrames"
proof (rule ccontr)
  assume "length (sampled d i t 0) \<noteq> maxFrames"
  with length_sampled[of d i t 0] have lt: "length (sampled d i t 0) < maxFrames" by simp
  with sampled_stop[of 0 d i t] assms show False by auto
qed

lemma loop_end_Cons:
  assumes "loop_end r sk d i (js_add t i) (Suc n) ts fin"
    and "\<not> (maxFrames \<le> n \<or> js_ge t d \<or> \<not> is_finite t)"
  shows "loop_end r sk d i t n (t # ts) fin"
  using assms by (cases r) (auto simp add: loop_end_def sampled_Cons nth_time_shift)

text \<open>Every run of the loop, taken apart.\<close>

lemma captureFrame_any:
  assumes "captureFrame j sk lv (s, b) = (r, s', b')"
  shows "\<exists>ts fin. trace b' = trace b @ concat (map (frame_events j) ts) @ fin
           \<and> (\<exists>more. sampled (job_duration j) (job_interval j) (currentTime lv) (frameCount lv)
                       = ts @ more)
           \<and> loop_end r sk (job_duration j) (job_interval j) (currentTime lv) (frameCount lv) ts fin
           \<and> (r = Cancelled \<longrightarrow> \<not> isProcessing s)
           \<and> object_urls b' = object_urls b \<and> url_counter b' = url_counter b
           \<and> s' = s\<lparr>loadingText := loadingText s', progressText := progressText s',
                     sourceVideoRef := sourceVideoRef s'\<rparr>"
  using assms
proof (induction j sk lv "(s, b)" arbitrary: s b rule: captureFrame.induct)
  case (1 j sk lv s b)
  let ?smp = "sampled (job_duration j) (job_interval j) (currentTime lv) (frameCount lv)"
  let ?go = "isProcessing s \<or> frameCount lv = 0 \<or> resultUrl s \<noteq> []"
  let ?exit = "maxFrames \<le> frameCount lv \<or> js_ge (currentTime lv) (job_duration j)"
  consider (cancel) "\<not> isProcessing s" "0 < frameCount lv" "resultUrl s = []"
    | (exit) ?go ?exit
    | (throw) ?go "\<not> ?exit" "\<not> is_finite (currentTime lv)"
    | (stall) ?go "\<not> ?exit" "is_finite (currentTime lv)" "\<not> sk (frameCount lv)"
    | (frame) ?go "\<not> ?exit" "is_finite (currentTime lv)" "sk (frameCount lv)"
    by blast
  then show ?case
  proof cases
    case cancel
    with "1.prems" have "r = Cancelled" "s' = s" "b' = b"
      by (simp_all add: captureFrame.simps[of j sk lv] captureFrame_once_cancel)
    with cancel show ?thesis
      by (intro exI[of _ "[]"]) (simp add: loop_end_def)
  next
    case exit
    with "1.prems" have "r = Rendered" "s' = s\<lparr>loadingText := LoadingRendering\<rparr>"
        "b' = emit GifRender b"
      by (simp_all add: captureFrame.simps[of j sk lv] captureFrame_once_exit)
    moreover have "?smp = []" using exit(2) by (intro sampled_Nil) blast
    ultimately show ?thesis using exit(2)
      by (intro exI[of _ "[]"] exI[of _ "[GifRender]"]) (simp add: loop_end_def)
  next
    case throw
    with "1.prems" have "r = SeekThrew" "s' = s" "b' = b"
      by (simp_all add: captureFrame.simps[of j sk lv] captureFrame_once_throw)
    moreover have "?smp = []" using throw(3) by (intro sampled_Nil) blast
    ultimately show ?thesis using throw(2,3)
      by (intro exI[of _ "[]"]) (simp add: loop_end_def)
  next
    case stall
    with "1.prems" have "r = Stalled"
        "s' = s\<lparr>sourceVideoRef :=
                 map_option (\<lambda>v. v\<lparr>video_currentTime := currentTime lv\<rparr>) (sourceVideoRef s)\<rparr>"
        "b' = emit (VideoSeek (currentTime lv)) b"
      by (simp_all add: captureFrame.simps[of j sk lv] captureFrame_once_stall)
    with stall(4) show ?thesis
      by (intro exI[of _ "[]"] exI[of _ "[VideoSeek (currentTime lv)]"]) (auto simp: loop_end_def)
  next
    case frame
    let ?lv = "\<lparr>currentTime = js_add (currentTime lv) (job_interval j),
                        frameCount = Suc (frameCount lv)\<rparr>"
    let ?s = "s\<lparr>sourceVideoRef :=
                     map_option (\<lambda>v. v\<lparr>video_currentTime := currentTime lv\<rparr>) (sourceVideoRef s),
                   progressText := ProgressCapture
                     (js_round (js_mul (js_div (currentTime lv) (job_duration j)) (Fin 100)))
                     (Suc (frameCount lv))\<rparr>"
    let ?b = "b\<lparr>trace := trace b @ frame_events j (currentTime lv)\<rparr>"
    let ?smp' = "sampled (job_duration j) (job_interval j) (currentTime ?lv) (frameCount ?lv)"
    have step: "captureFrame_once j sk lv (s, b) = Scheduled ?lv (?s, ?b)"
      using captureFrame_once_frame[of s lv j sk b] frame by simp
    have run: "captureFrame j sk ?lv (?s, ?b) = (r, s', b')"
      using "1.prems" by (simp add: captureFrame.simps[of j sk lv] step)
    from "1.hyps"[OF step run] obtain ts fin where
      tr: "trace b' = trace ?b @ concat (map (frame_events j) ts) @ fin"
      and ts: "\<exists>more. ?smp' = ts @ more"
      and r: "loop_end r sk (job_duration j) (job_interval j) (currentTime ?lv) (frameCount ?lv)
                ts fin"
      and c: "r = Cancelled \<longrightarrow> \<not> isProcessing ?s"
      and rest: "object_urls b' = object_urls ?b" "url_counter b' = url_counter ?b"
        "s' = ?s\<lparr>loadingText := loadingText s', progressText := progressText s',
                     sourceVideoRef := sourceVideoRef s'\<rparr>"
      by blast
    have go: "\<not> (maxFrames \<le> frameCount lv \<or> js_ge (currentTime lv) (job_duration j)
                 \<or> \<not> is_finite (currentTime lv))"
      using frame(2,3) by blast
    have sm: "?smp = currentTime lv # ?smp'"
      using go by (simp add: sampled_Cons)
    have s': "s' = s\<lparr>loadingText := loadingText s', progressText := progressText s',
                     sourceVideoRef := sourceVideoRef s'\<rparr>"
      by (subst rest(3)) simp
    have ts': "\<exists>more. ?smp = (currentTime lv # ts) @ more"
      using ts by (simp add: sm)
    have r': "loop_end r sk (job_duration j) (job_interval j) (currentTime lv) (frameCount lv)
                (currentTime lv # ts) fin"
      using r go by (intro loop_end_Cons) simp_all
    have c': "r = Cancelled \<longrightarrow> \<not> isProcessing s" using c by simp
    have tr': "trace b' = trace b @ concat (map (frame_events j) (currentTime lv # ts)) @ fin"
      using tr by simp
    show ?thesis
      by (rule exI[of _ "currentTime lv # ts"], rule exI[of _ fin])
         (insert tr' ts' r' c' rest(1,2) s', intro conjI, assumption+, simp_all)
  qed
qed

lemma captureFrame_turns_enough:
  "Suc (maxFrames - frameCount lv) \<le> n \<Longrightarrow>
     captureFrame_turns n j sk lv sb = Some (captureFrame j sk lv sb)"
proof (induction n arbitrary: lv sb)
  case 0
  then show ?case by simp
next
  case (Suc n)
  show ?case
  proof (cases "captureFrame_once j sk lv sb")
    case (Finished r sb')
    then show ?thesis by (simp add: captureFrame.simps[of j sk lv])
  next
    case (Scheduled lv' sb')
    from captureFrame_once_Scheduled(1,2)[OF this] Suc.prems
    have "Suc (maxFrames - frameCount lv') \<le> n" by simp
    from Suc.IH[OF this] Scheduled show ?thesis
      by (simp add: captureFrame.simps[of j sk lv])
  qed
qed

text \<open>
  With \<^verbatim>\<open>isProcessing\<close> set and every seek completing the loop renders or throws, and which
  of the two is decided by the timestamp that follows the last captured frame.
\<close>

lemma loop_end_seeks:
  assumes "loop_end r sk d i t n ts fin" "\<forall>k. sk k" "r \<noteq> Cancelled"
  shows "ts = sampled d i t n"
    and "r = Rendered \<or> r = SeekThrew"
    and "r = Rendered \<longleftrightarrow> (maxFrames \<le> n + length ts \<or> js_ge (nth_time t i (length ts)) d)"
    and "count_list fin GifRender = (if r = Rendered then 1 else 0)"
    and "submitted fin = []"
  using assms by (cases r; simp add: loop_end_def submitted_def)+

section \<open>Facts about initWorker and startConversion\<close>

lemma initWorker_ready:
  "workerBlobUrl s \<noteq> [] \<Longrightarrow> initWorker r (s, b) = (True, s, b)"
  by (simp add: initWorker_def initWorker_begin_def)

lemma initWorker_Response:
  "workerBlobUrl s = [] \<Longrightarrow>
     initWorker (Response st body) (s, b) =
       (True, s\<lparr>workerBlobUrl := ''blob:'' @ replicate (url_counter b) (CHR ''i'')\<rparr>,
        b\<lparr>object_urls := (''blob:'' @ replicate (url_counter b) (CHR ''i''), ScriptBlob body)
                            # object_urls b,
           url_counter := Suc (url_counter b),
           trace := trace b @ [FetchWorkerScript,
                     CreateObjectURL (''blob:'' @ replicate (url_counter b) (CHR ''i''))]\<rparr>)"
  by (simp add: initWorker_def initWorker_begin_def initWorker_resume_def createObjectURL_def
      emit_def Let_def)

lemma initWorker_NetworkError:
  "workerBlobUrl s = [] \<Longrightarrow>
     initWorker NetworkError (s, b) =
       (False, s, b\<lparr>trace := trace b @ [FetchWorkerScript, ConsoleError, Alert AlertInitFailed]\<rparr>)"
  by (simp add: initWorker_def initWorker_begin_def initWorker_resume_def emit_def)

lemma initWorker_True:
  assumes "initWorker r (s, b) = (True, s0, b0)"
  shows "s0 = s\<lparr>workerBlobUrl := workerBlobUrl s0\<rparr>" and "workerBlobUrl s0 \<noteq> []"
    and "\<exists>us es. object_urls b0 = us @ object_urls b \<and> trace b0 = trace b @ es
           \<and> set es \<subseteq> {FetchWorkerScript} \<union> range CreateObjectURL"
proof -
  show "s0 = s\<lparr>workerBlobUrl := workerBlobUrl s0\<rparr>" and "workerBlobUrl s0 \<noteq> []"
    using assms
    by (cases "workerBlobUrl s = []"; cases r;
        auto simp: initWorker_ready initWorker_Response initWorker_NetworkError)+
  show "\<exists>us es. object_urls b0 = us @ object_urls b \<and> trace b0 = trace b @ es
           \<and> set es \<subseteq> {FetchWorkerScript} \<union> range CreateObjectURL"
  proof (cases "workerBlobUrl s = []")
    case False
    with assms have "b0 = b" by (simp add: initWorker_ready)
    then show ?thesis by (intro exI[of _ "[]"]) simp
  next
    case True
    with assms obtain st body where r: "r = Response st body"
      by (cases r) (auto simp: initWorker_NetworkError)
    let ?u = "''blob:'' @ replicate (url_counter b) (CHR ''i'')"
    from assms True r have "object_urls b0 = [(?u, ScriptBlob body)] @ object_urls b"
      "trace b0 = trace b @ [FetchWorkerScript, CreateObjectURL ?u]"
      by (auto simp: initWorker_Response)
    then show ?thesis
      by (intro exI[of _ "[(?u, ScriptBlob body)]"] exI[of _ "[FetchWorkerScript, CreateObjectURL ?u]"]) auto
  qed
qed

text \<open>The prefix of startConversion up to the capture loop.\<close>

lemma startConversion_reaches_loop:
  assumes "videoFile s \<noteq> None" "sourceVideoRef s \<noteq> None"
    and "(if workerBlobUrl s = [] then initWorker (fetch_result e) (s, b) else (True, s, b))
           = (True, s0, b0)"
    and "sourceVideoRef s0 = Some v" "gif_defined e"
  shows "startConversion e (s, b) =
     (let s1 = s0\<lparr>isProcessing := True, loadingText := LoadingInitializing\<rparr>;
          w = width (settings s0); h = target_height w v
      in if \<not> ctx_available e then (NoContext, s1, emit (CreateCanvas w h) b0)
         else
           (case captureFrame
                   \<lparr>job_width = w, job_height = h, job_duration = duration v,
                    job_interval = js_div (Fin 1) (fps (settings s0))\<rparr>
                   (seeked e) \<lparr>currentTime = Fin 0, frameCount = 0\<rparr>
                   (s1\<lparr>loadingText := LoadingCapturing,
                       sourceVideoRef := Some (v\<lparr>paused := True\<rparr>)\<rparr>,
                    b0\<lparr>trace := trace b0 @ [CreateCanvas w h, GifNew (gif_options_of s1 w h),
                                             VideoPause]\<rparr>)
            of (r, sb') \<Rightarrow> (Captured r, sb')))"
  using assms
  by (simp add: startConversion_def Let_def emit_def split: prod.splits)

lemma startConversion_Captured:
  assumes "startConversion e (s, b) = (Captured r, s', b')"
  obtains s0 b0 v where "videoFile s \<noteq> None" "sourceVideoRef s \<noteq> None"
    "(if workerBlobUrl s = [] then initWorker (fetch_result e) (s, b) else (True, s, b))
           = (True, s0, b0)"
    "sourceVideoRef s0 = Some v" "gif_defined e" "ctx_available e"
  using assms
  by (auto simp: startConversion_def Let_def split: prod.splits if_splits option.splits)

lemma new_effects_append [simp]: "trace b' = trace b @ es \<Longrightarrow> new_effects b b' = es"
  by (simp add: new_effects_def)

lemma submitted_simps [simp]:
  "submitted [] = []"
  "submitted (es @ fs) = submitted es @ submitted fs"
  "submitted (GifAddFrame t d # es) = t # submitted es"
  "submitted (VideoSeek t # es) = submitted es"
  "submitted (DrawImage t w h # es) = submitted es"
  "submitted (GifRender # es) = submitted es"
  "submitted (CreateCanvas w h # es) = submitted es"
  "submitted (GifNew opts # es) = submitted es"
  "submitted (VideoPause # es) = submitted es"
  "submitted (FetchWorkerScript # es) = submitted es"
  "submitted (CreateObjectURL u # es) = submitted es"
  by (simp_all add: submitted_def)

lemma submitted_frames [simp]: "submitted (concat (map (frame_events j) ts)) = ts"
  by (induction ts) (simp_all add: frame_events_def)

lemma submitted_init_events:
  "set es \<subseteq> {FetchWorkerScript} \<union> range CreateObjectURL \<Longrightarrow> submitted es = []"
  by (induction es) auto

lemma notin_frame_events [simp]:
  "GifRender \<notin> set (frame_events j t)"
  "GifNew opts \<notin> set (frame_events j t)"
  "RevokeObjectURL u \<notin> set (frame_events j t)"
  "CreateObjectURL u \<notin> set (frame_events j t)"
  "Alert a \<notin> set (frame_events j t)"
  by (simp_all add: frame_events_def)

text \<open>Every run of startConversion that reaches the loop, taken apart.\<close>

lemma startConversion_run:
  assumes "startConversion e (s, b) = (Captured r, s', b')"
  obtains s0 b0 v ts fin where
    "worker_ready e (s, b) = (True, s0, b0)"
    "sourceVideoRef s0 = Some v"
    "trace b' = trace b0 @ setup_events s0 v @ concat (map (frame_events (job_of s0 v)) ts) @ fin"
    "\<exists>more. sampled (duration v) (js_div (Fin 1) (fps (settings s0))) (Fin 0) 0 = ts @ more"
    "loop_end r (seeked e) (duration v) (js_div (Fin 1) (fps (settings s0))) (Fin 0) 0 ts fin"
    "r \<noteq> Cancelled"
    "object_urls b' = object_urls b0" "isProcessing s'" "resultUrl s' = resultUrl s0"
proof -
  from startConversion_Captured[OF assms] obtain s0 b0 v where
    pre: "videoFile s \<noteq> None" "sourceVideoRef s \<noteq> None"
    "(if workerBlobUrl s = [] then initWorker (fetch_result e) (s, b) else (True, s, b))
           = (True, s0, b0)"
    "sourceVideoRef s0 = Some v" "gif_defined e" "ctx_available e"
    by blast
  let ?w = "width (settings s0)"
  let ?h = "target_height ?w v"
  let ?j = "\<lparr>job_width = ?w, job_height = ?h, job_duration = duration v,
             job_interval = js_div (Fin 1) (fps (settings s0))\<rparr>"
  let ?s1 = "s0\<lparr>isProcessing := True, loadingText := LoadingInitializing\<rparr>"
  let ?s3 = "?s1\<lparr>loadingText := LoadingCapturing, sourceVideoRef := Some (v\<lparr>paused := True\<rparr>)\<rparr>"
  let ?b3 = "b0\<lparr>trace := trace b0 @ [CreateCanvas ?w ?h, GifNew (gif_options_of ?s1 ?w ?h), VideoPause]\<rparr>"
  have run: "captureFrame ?j (seeked e) \<lparr>currentTime = Fin 0, frameCount = 0\<rparr> (?s3, ?b3) = (r, s', b')"
    using assms startConversion_reaches_loop[OF pre(1-5)] pre(6)
    by (simp add: Let_def split: prod.splits)
  have "\<exists>ts fin. trace b' = trace ?b3 @ concat (map (frame_events ?j) ts) @ fin
      \<and> (\<exists>more. sampled (duration v) (js_div (Fin 1) (fps (settings s0))) (Fin 0) 0 = ts @ more)
      \<and> loop_end r (seeked e) (duration v) (js_div (Fin 1) (fps (settings s0))) (Fin 0) 0 ts fin
      \<and> (r = Cancelled \<longrightarrow> \<not> isProcessing ?s3)
      \<and> object_urls b' = object_urls ?b3 \<and> url_counter b' = url_counter ?b3
      \<and> s' = ?s3\<lparr>loadingText := loadingText s', progressText := progressText s',
                     sourceVideoRef := sourceVideoRef s'\<rparr>"
    using captureFrame_any[OF run] unfolding job.simps loop_vars.simps .
  then obtain ts fin where
    tr: "trace b' = trace ?b3 @ concat (map (frame_events ?j) ts) @ fin"
    and ts: "\<exists>more. sampled (duration v) (js_div (Fin 1) (fps (settings s0))) (Fin 0) 0 = ts @ more"
    and r: "loop_end r (seeked e) (duration v) (js_div (Fin 1) (fps (settings s0))) (Fin 0) 0 ts fin"
    and c: "r = Cancelled \<longrightarrow> \<not> isProcessing ?s3"
    and rest: "object_urls b' = object_urls ?b3"
      "s' = ?s3\<lparr>loadingText := loadingText s', progressText := progressText s',
                     sourceVideoRef := sourceVideoRef s'\<rparr>"
    by blast
  have c': "r \<noteq> Cancelled" using c by auto
  have 1: "worker_ready e (s, b) = (True, s0, b0)"
    using pre(3) by (simp add: worker_ready_def)
  have 3: "trace b' = trace b0 @ setup_events s0 v @ concat (map (frame_events (job_of s0 v)) ts) @ fin"
    using tr by (simp add: setup_events_def job_of_def)
  have 6: "object_urls b' = object_urls b0" using rest(1) by simp
  have 7: "isProcessing s'" by (subst rest(2)) simp
  have 8: "resultUrl s' = resultUrl s0" by (subst rest(2)) simp
  show thesis by (rule that[OF 1 pre(4) 3 ts r c' 6 7 8])
qed

lemma startConversion_captures:
  assumes "videoFile s \<noteq> None" "sourceVideoRef s = Some v" "workerBlobUrl s \<noteq> []"
    "gif_defined e" "ctx_available e"
  shows "\<exists>r s' b'. startConversion e (s, b) = (Captured r, s', b')"
proof -
  let ?s1 = "s\<lparr>isProcessing := True, loadingText := LoadingInitializing\<rparr>"
  let ?s3 = "?s1\<lparr>loadingText := LoadingCapturing, sourceVideoRef := Some (v\<lparr>paused := True\<rparr>)\<rparr>"
  let ?w = "width (settings s)"
  let ?h = "target_height ?w v"
  let ?j = "\<lparr>job_width = ?w, job_height = ?h, job_duration = duration v,
             job_interval = js_div (Fin 1) (fps (settings s))\<rparr>"
  let ?b3 = "b\<lparr>trace := trace b @ [CreateCanvas ?w ?h, GifNew (gif_options_of ?s1 ?w ?h), VideoPause]\<rparr>"
  obtain r s' b' where
    run: "captureFrame ?j (seeked e) \<lparr>currentTime = Fin 0, frameCount = 0\<rparr> (?s3, ?b3) = (r, s', b')"
    by (cases "captureFrame ?j (seeked e) \<lparr>currentTime = Fin 0, frameCount = 0\<rparr> (?s3, ?b3)")
  have "startConversion e (s, b) = (Captured r, s', b')"
    using startConversion_reaches_loop[of s e b s b v] assms(1-5) run
    by (simp add: Let_def)
  then show ?thesis by blast
qed

lemma initWorker_effects:
  assumes "initWorker r (s, b) = (ok, s0, b0)"
  shows "\<exists>es. trace b0 = trace b @ es
           \<and> set es \<subseteq> {FetchWorkerScript, ConsoleError, Alert AlertInitFailed} \<union> range CreateObjectURL"
    and "s0 = s\<lparr>workerBlobUrl := workerBlobUrl s0\<rparr>"
proof -
  show "\<exists>es. trace b0 = trace b @ es
           \<and> set es \<subseteq> {FetchWorkerScript, ConsoleError, Alert AlertInitFailed} \<union> range CreateObjectURL"
  proof (cases "workerBlobUrl s = []")
    case False
    with assms have "trace b0 = trace b @ []" by (simp add: initWorker_ready)
    then show ?thesis by (intro exI[of _ "[]"]) simp
  next
    case True
    show ?thesis
    proof (cases r)
      case NetworkError
      with True assms have "trace b0 = trace b @ [FetchWorkerScript, ConsoleError, Alert AlertInitFailed]"
        by (auto simp: initWorker_NetworkError)
      then show ?thesis by (intro exI[of _ "[FetchWorkerScript, ConsoleError, Alert AlertInitFailed]"]) simp
    next
      case (Response st body)
      let ?u = "''blob:'' @ replicate (url_counter b) (CHR ''i'')"
      from Response True assms have "trace b0 = trace b @ [FetchWorkerScript, CreateObjectURL ?u]"
        by (auto simp: initWorker_Response)
      then show ?thesis by (intro exI[of _ "[FetchWorkerScript, CreateObjectURL ?u]"]) simp
    qed
  qed
  show "s0 = s\<lparr>workerBlobUrl := workerBlobUrl s0\<rparr>"
    using assms
    by (cases "workerBlobUrl s = []"; cases r)
       (auto simp: initWorker_ready initWorker_Response initWorker_NetworkError)
qed

lemma prep_settings:
  assumes "(if workerBlobUrl s = [] then initWorker r (s, b) else (True, s, b)) = (ok, s0, b0)"
  shows "s0 = s\<lparr>workerBlobUrl := workerBlobUrl s0\<rparr>"
    and "\<exists>es. trace b0 = trace b @ es
           \<and> set es \<subseteq> {FetchWorkerScript, ConsoleError, Alert AlertInitFailed} \<union> range CreateObjectURL"
    and "\<exists>us. object_urls b0 = us @ object_urls b"
proof -
  show "s0 = s\<lparr>workerBlobUrl := workerBlobUrl s0\<rparr>"
    using assms initWorker_effects(2)[of r s b ok s0 b0] by (cases "workerBlobUrl s = []") auto
  show "\<exists>es. trace b0 = trace b @ es
           \<and> set es \<subseteq> {FetchWorkerScript, ConsoleError, Alert AlertInitFailed} \<union> range CreateObjectURL"
  proof (cases "workerBlobUrl s = []")
    case True
    with assms initWorker_effects(1)[of r s b ok s0 b0] show ?thesis by simp
  next
    case False
    with assms have "trace b0 = trace b @ []" by simp
    then show ?thesis by (intro exI[of _ "[]"]) simp
  qed
  show "\<exists>us. object_urls b0 = us @ object_urls b"
  proof (cases "workerBlobUrl s = []")
    case False
    with assms have "object_urls b0 = [] @ object_urls b" by simp
    then show ?thesis by blast
  next
    case True
    show ?thesis
    proof (cases r)
      case NetworkError
      with True assms have "object_urls b0 = [] @ object_urls b"
        by (auto simp: initWorker_NetworkError)
      then show ?thesis by blast
    next
      case (Response st body)
      with True assms
      have "object_urls b0 = [(''blob:'' @ replicate (url_counter b) (CHR ''i''), ScriptBlob body)]
              @ object_urls b"
        by (auto simp: initWorker_Response)
      then show ?thesis by blast
    qed
  qed
qed

lemma worker_ready_effects:
  assumes "worker_ready e (s, b) = (ok, s0, b0)"
  shows "s0 = s\<lparr>workerBlobUrl := workerBlobUrl s0\<rparr>"
    and "\<exists>es. trace b0 = trace b @ es
           \<and> set es \<subseteq> {FetchWorkerScript, ConsoleError, Alert AlertInitFailed} \<union> range CreateObjectURL"
    and "\<exists>us. object_urls b0 = us @ object_urls b"
  using prep_settings[of s "fetch_result e" b ok s0 b0] assms
  by (simp_all add: worker_ready_def)

lemma startConversion_prep:
  assumes "videoFile s \<noteq> None" "sourceVideoRef s \<noteq> None"
    and "(if workerBlobUrl s = [] then initWorker (fetch_result e) (s, b) else (True, s, b))
           = (ok, s0, b0)"
  shows "startConversion e (s, b) =
     (if \<not> ok then (NotStarted, s0, b0)
      else if \<not> gif_defined e then (NotStarted, s0, emit (Alert AlertLibNotLoaded) b0)
      else case sourceVideoRef s0 of
             None \<Rightarrow> (Threw, s0\<lparr>isProcessing := True, loadingText := LoadingInitializing\<rparr>, b0)
           | Some v \<Rightarrow>
               (let s1 = s0\<lparr>isProcessing := True, loadingText := LoadingInitializing\<rparr>;
                    w = width (settings s0); h = target_height w v
                in if \<not> ctx_available e then (NoContext, s1, emit (CreateCanvas w h) b0)
                   else
                     (case captureFrame
                             \<lparr>job_width = w, job_height = h, job_duration = duration v,
                              job_interval = js_div (Fin 1) (fps (settings s0))\<rparr>
                             (seeked e) \<lparr>currentTime = Fin 0, frameCount = 0\<rparr>
                             (s1\<lparr>loadingText := LoadingCapturing,
                                 sourceVideoRef := Some (v\<lparr>paused := True\<rparr>)\<rparr>,
                              b0\<lparr>trace := trace b0 @ [CreateCanvas w h,
                                     GifNew (gif_options_of s1 w h), VideoPause]\<rparr>)
                      of (r, sb') \<Rightarrow> (Captured r, sb'))))"
  using assms
  by (auto simp: startConversion_def Let_def emit_def split: option.splits)

lemma startConversion_early:
  assumes "startConversion e (s, b) = (c, s', b')" "c = NotStarted \<or> c = Threw \<or> c = NoContext"
  shows "\<exists>es. trace b' = trace b @ es
           \<and> set es \<subseteq> {FetchWorkerScript, ConsoleError} \<union> range Alert \<union> range CreateObjectURL
                        \<union> range (\<lambda>(w, h). CreateCanvas w h)"
proof (cases "videoFile s = None \<or> sourceVideoRef s = None")
  case True
  with assms(1) have "trace b' = trace b @ []" by (auto simp: startConversion_def)
  then show ?thesis by (intro exI[of _ "[]"]) simp
next
  case False
  obtain ok s0 b0 where
    iw: "(if workerBlobUrl s = [] then initWorker (fetch_result e) (s, b) else (True, s, b))
           = (ok, s0, b0)"
    by (cases "if workerBlobUrl s = [] then initWorker (fetch_result e) (s, b) else (True, s, b)")
  from prep_settings(2)[OF iw] obtain es0 where es0: "trace b0 = trace b @ es0"
    "set es0 \<subseteq> {FetchWorkerScript, ConsoleError, Alert AlertInitFailed} \<union> range CreateObjectURL"
    by blast
  have "b' = b0 \<or> b' = emit (Alert AlertLibNotLoaded) b0 \<or> (\<exists>w h. b' = emit (CreateCanvas w h) b0)"
    using assms False
    by (auto simp: startConversion_prep[OF _ _ iw] Let_def split: if_splits option.splits prod.splits)
  then consider "trace b' = trace b @ es0"
    | "trace b' = trace b @ es0 @ [Alert AlertLibNotLoaded]"
    | w h where "trace b' = trace b @ es0 @ [CreateCanvas w h]"
    using es0(1) by auto
  then show ?thesis
  proof cases
    case 1
    with es0(2) show ?thesis by (intro exI[of _ es0]) auto
  next
    case 2
    with es0(2) show ?thesis by (intro exI[of _ "es0 @ [Alert AlertLibNotLoaded]"]) auto
  next
    case 3
    with es0(2) show ?thesis by (intro exI[of _ "es0 @ [CreateCanvas w h]"]) auto
  qed
qed

lemma count_frames_render [simp]: "count_list (concat (map (frame_events j) ts)) GifRender = 0"
  by (induction ts) (simp_all add: frame_events_def)

lemma count_list_append [simp]: "count_list (xs @ ys) x = count_list xs x + count_list ys x"
  by (induction xs) simp_all

lemma worker_ready_True:
  assumes "worker_ready e (s, b) = (True, s0, b0)"
  shows "\<exists>us es. object_urls b0 = us @ object_urls b \<and> trace b0 = trace b @ es
           \<and> set es \<subseteq> {FetchWorkerScript} \<union> range CreateObjectURL"
proof (cases "workerBlobUrl s = []")
  case True
  with assms initWorker_True(3)[of "fetch_result e" s b s0 b0] show ?thesis
    by (simp add: worker_ready_def)
next
  case False
  with assms have "object_urls b0 = [] @ object_urls b \<and> trace b0 = trace b @ []"
    by (simp add: worker_ready_def)
  then show ?thesis by (intro exI[of _ "[]"]) simp
qed

lemma processFile_isProcessing [simp]:
  "isProcessing (fst (processFile f (s, b))) = isProcessing s"
  by (simp add: processFile_def Let_def split: prod.splits)

lemma initWorker_isProcessing [simp]:
  "isProcessing (fst (snd (initWorker r (s, b)))) = isProcessing s"
proof -
  obtain ok s0 b0 where iw: "initWorker r (s, b) = (ok, s0, b0)"
    by (cases "initWorker r (s, b)")
  from initWorker_effects(2)[OF iw] have "isProcessing s0 = isProcessing s"
    by (metis app_state.select_convs(5) app_state.surjective app_state.update_convs(4))
  with iw show ?thesis by simp
qed

lemma startConversion_isProcessing:
  assumes "isProcessing s"
  shows "isProcessing (fst (snd (startConversion e (s, b))))"
proof (cases "videoFile s = None \<or> sourceVideoRef s = None")
  case True
  with assms show ?thesis by (auto simp: startConversion_def)
next
  case False
  obtain ok s0 b0 where
    iw: "(if workerBlobUrl s = [] then initWorker (fetch_result e) (s, b) else (True, s, b))
           = (ok, s0, b0)"
    by (cases "if workerBlobUrl s = [] then initWorker (fetch_result e) (s, b) else (True, s, b)")
  from prep_settings(1)[OF iw] have "isProcessing s0 = isProcessing s"
    by (metis app_state.select_convs(5) app_state.surjective app_state.update_convs(4))
  with assms have s0: "isProcessing s0" by simp
  obtain c s' b' where run: "startConversion e (s, b) = (c, s', b')"
    by (cases "startConversion e (s, b)")
  show ?thesis
  proof (cases c)
    case (Captured r)
    with run startConversion_run[of e s b r s' b'] show ?thesis by auto
  next
    case NotStarted
    with run False s0 show ?thesis
      by (auto simp: startConversion_prep[OF _ _ iw] Let_def split: if_splits option.splits prod.splits)
  next
    case NoContext
    with run False s0 show ?thesis
      by (auto simp: startConversion_prep[OF _ _ iw] Let_def split: if_splits option.splits prod.splits)
  next
    case Threw
    with run False s0 show ?thesis
      by (auto simp: startConversion_prep[OF _ _ iw] Let_def split: if_splits option.splits prod.splits)
  qed
qed

lemma no_revoke_in_init:
  "set es \<subseteq> {FetchWorkerScript, ConsoleError, Alert AlertInitFailed} \<union> range CreateObjectURL
     \<Longrightarrow> RevokeObjectURL u \<notin> set es"
  by auto

lemma processFile_releases:
  assumes "startsWith (file_type f) ''video/''" "videoUrl s \<noteq> []" "resultUrl s \<noteq> []"
    "sourceVideoRef s \<noteq> None"
  shows "new_effects b (snd (processFile f (s, b)))
           = [RevokeObjectURL (videoUrl s), RevokeObjectURL (resultUrl s),
              CreateObjectURL (videoUrl (fst (processFile f (s, b)))), VideoLoad]"
    and "resultUrl (fst (processFile f (s, b))) = []"
  using assms
  by (auto simp: processFile_def Let_def createObjectURL_def revokeObjectURL_def emit_def
      new_effects_def split: prod.splits)

lemma count_list_le_1_last:
  assumes "count_list es x = 0"
  shows "\<forall>pre post. es @ [x] = pre @ x # post \<longrightarrow> post = []"
proof (intro allI impI)
  fix pre post
  assume eq: "es @ [x] = pre @ x # post"
  show "post = []"
  proof (rule ccontr)
    assume "post \<noteq> []"
    then obtain post' where p: "post = post' @ [last post]"
      by (metis append_butlast_last_id)
    with eq have "es @ [x] = (pre @ x # post') @ [last post]" by simp
    then have "es = pre @ x # post'" by (simp only: append1_eq_conv)
    with assms show False by simp
  qed
qed

lemma count_init_render:
  "set es \<subseteq> {FetchWorkerScript, ConsoleError, Alert AlertInitFailed} \<union> range CreateObjectURL
     \<Longrightarrow> count_list es GifRender = 0"
  by (induction es) auto

lemma no_split_without:
  "count_list es x = 0 \<Longrightarrow> \<forall>pre post. es = pre @ x # post \<longrightarrow> post = []"
  by auto

lemma submitted_none:
  "(\<forall>t d. GifAddFrame t d \<notin> set es) \<Longrightarrow> submitted es = []"
proof (induction es)
  case Nil
  then show ?case by simp
next
  case (Cons e es)
  then show ?case by (cases e) (auto simp: submitted_def)
qed

text \<open>Sample rates, intervals and the frames of a run.\<close>

lemma interval_of_rate:
  assumes "is_double R" "0 < R"
  shows "js_div (Fin 1) (Fin R) = PosInf
         \<or> (\<exists>i. js_div (Fin 1) (Fin R) = Fin i \<and> is_double i \<and> 0 < i)"
proof -
  have q: "0 < 1 / R" using assms(2) by simp
  from is_doubleD[OF assms] have "R < 2 powi 1024" by blast
  then have "1 / 2 powi 1024 < 1 / R" using assms(2) by (simp add: divide_strict_left_mono)
  moreover have "(2::rat) powi (- 1074) \<le> 2 powi (- 1024)" by (intro two_powi_le) simp
  moreover have "(2::rat) powi (- 1024) = 1 / 2 powi 1024"
    by (simp only: power_int_minus_divide)
  ultimately have "2 powi (- 1074) \<le> 1 / R" by linarith
  from fl_nonzero[OF this] have nz: "rnd (1 / R) \<noteq> 0" "0 < rnd (1 / R)" .
  have d: "js_div (Fin 1) (Fin R) = fl (1 / R)"
    using assms(2) by (simp add: js_div_def is_inf_def is_zero_def)
  show ?thesis
  proof (cases "2 powi 1024 \<le> rnd (1 / R)")
    case True
    then show ?thesis using q d by (simp add: fl_pos)
  next
    case False
    then have "fl (1 / R) = Fin (rnd (1 / R))" using q nz by (simp add: fl_pos)
    moreover have "is_double (rnd (1 / R))" using False nz by (intro rnd_is_double[OF q]) simp_all
    ultimately show ?thesis using nz d by simp
  qed
qed

lemma nth_time_PosInf [simp]: "nth_time (Fin 0) PosInf (Suc k) = PosInf"
  by (induction k) simp_all

lemma timestamps_shape:
  assumes "iv = PosInf \<or> (\<exists>i. iv = Fin i \<and> is_double i \<and> 0 < i)" "k \<le> 300"
  shows "nth_time (Fin 0) iv k = PosInf \<or> (\<exists>x. nth_time (Fin 0) iv k = Fin x \<and> 0 \<le> x)"
  using assms(1)
proof
  assume "iv = PosInf"
  then show ?thesis by (cases k) (simp_all del: nth_time.simps(2))
next
  assume "\<exists>i. iv = Fin i \<and> is_double i \<and> 0 < i"
  then obtain i where i: "iv = Fin i" "is_double i" "0 < i" by blast
  from nth_time_invariant[OF i(2,3) assms(2)] show ?thesis unfolding i(1) by auto
qed


text \<open>
  For a finite rate above zero and a duration that is not NaN, the timestamp after the last
  captured frame meets an exit test: the loop does not stop at the seek.
\<close>

lemma sampled_exit:
  assumes iv: "iv = PosInf \<or> (\<exists>i. iv = Fin i \<and> is_double i \<and> 0 < i)"
    and d: "d = PosInf \<or> (\<exists>D. d = Fin D \<and> 0 < D)"
  shows "maxFrames \<le> length (sampled d iv (Fin 0) 0)
         \<or> js_ge (nth_time (Fin 0) iv (length (sampled d iv (Fin 0) 0))) d"
proof -
  define n where "n = length (sampled d iv (Fin 0) 0)"
  have "n \<le> 300"
    using length_sampled[of d iv "Fin 0" 0] by (simp add: n_def maxFrames_def)
  from timestamps_shape[OF iv this]
  have "nth_time (Fin 0) iv n = PosInf \<or> is_finite (nth_time (Fin 0) iv n)" by auto
  moreover have "js_ge PosInf d" using d by auto
  ultimately show ?thesis
    using sampled_stop[of 0 d iv "Fin 0"] unfolding n_def by auto
qed

lemma startConversion_frames:
  assumes "startConversion e (s, b) = (Captured r, s', b')" and "sourceVideoRef s = Some v"
    and "\<forall>k. seeked e k"
  shows "r = Rendered \<or> r = SeekThrew"
    and "submitted (new_effects b b')
           = sampled (duration v) (js_div (Fin 1) (fps (settings s))) (Fin 0) 0"
    and "r = Rendered \<longleftrightarrow>
           (maxFrames \<le> length (sampled (duration v) (js_div (Fin 1) (fps (settings s))) (Fin 0) 0)
            \<or> js_ge (nth_time (Fin 0) (js_div (Fin 1) (fps (settings s)))
                       (length (sampled (duration v) (js_div (Fin 1) (fps (settings s))) (Fin 0) 0)))
                 (duration v))"
proof -
  obtain s0 b0 v0 ts fin where
    iw: "worker_ready e (s, b) = (True, s0, b0)"
    and v0: "sourceVideoRef s0 = Some v0"
    and tr: "trace b' = trace b0 @ setup_events s0 v0
               @ concat (map (frame_events (job_of s0 v0)) ts) @ fin"
    and ts: "\<exists>more. sampled (duration v0) (js_div (Fin 1) (fps (settings s0))) (Fin 0) 0 = ts @ more"
    and fin: "loop_end r (seeked e) (duration v0) (js_div (Fin 1) (fps (settings s0))) (Fin 0) 0 ts fin"
    and nc: "r \<noteq> Cancelled"
    and rest: "object_urls b' = object_urls b0" "isProcessing s'" "resultUrl s' = resultUrl s0"
    by (rule startConversion_run[OF assms(1)])
  from worker_ready_effects[OF iw] obtain es0 where
    s0: "s0 = s\<lparr>workerBlobUrl := workerBlobUrl s0\<rparr>" and es0: "trace b0 = trace b @ es0"
      "set es0 \<subseteq> {FetchWorkerScript, ConsoleError, Alert AlertInitFailed} \<union> range CreateObjectURL"
    by blast
  have "sourceVideoRef s0 = sourceVideoRef s" "settings s0 = settings s"
    by (subst s0, simp)+
  with v0 assms(2) have vv: "v0 = v" and st: "settings s0 = settings s" by simp_all
  note le = loop_end_seeks[OF fin assms(3) nc, unfolded vv st]
  show "r = Rendered \<or> r = SeekThrew" by (rule le(2))
  have "submitted es0 = []"
    using es0(2) by (intro submitted_none) auto
  then show "submitted (new_effects b b')
           = sampled (duration v) (js_div (Fin 1) (fps (settings s))) (Fin 0) 0"
    using tr es0(1) le(1,5) by (simp add: setup_events_def)
  show "r = Rendered \<longleftrightarrow>
           (maxFrames \<le> length (sampled (duration v) (js_div (Fin 1) (fps (settings s))) (Fin 0) 0)
            \<or> js_ge (nth_time (Fin 0) (js_div (Fin 1) (fps (settings s)))
                       (length (sampled (duration v) (js_div (Fin 1) (fps (settings s))) (Fin 0) 0)))
                 (duration v))"
    using le(3) unfolding le(1) by simp
qed

lemma startConversion_renders:
  assumes "videoFile s \<noteq> None" "sourceVideoRef s = Some v" "workerBlobUrl s \<noteq> []"
    "gif_defined e" "ctx_available e" "\<forall>k. seeked e k"
    and "fps (settings s) = Fin R" "is_double R" "0 < R"
    and "duration v = PosInf \<or> (\<exists>D. duration v = Fin D \<and> 0 < D)"
  shows "\<exists>s' b'. startConversion e (s, b) = (Captured Rendered, s', b')"
proof -
  from startConversion_captures[OF assms(1-5)] obtain r s' b' where
    run: "startConversion e (s, b) = (Captured r, s', b')" by blast
  have "r = Rendered"
    using startConversion_frames(3)[OF run assms(2,6)]
      sampled_exit[OF interval_of_rate[OF assms(8,9)] assms(10)]
    by (simp add: assms(7))
  with run show ?thesis by blast
qed

lemma is_double_10: "is_double 10"
  by (rule is_doubleI[where m = 5 and e = 1]) simp_all

lemma ready_state_renders:
  "\<exists>s' b'. startConversion env0 (ready_state, browser0) = (Captured Rendered, s', b')"
  by (rule startConversion_renders[where v = video0 and R = 10])
     (simp_all add: ready_state_def env0_def initial_state_def video0_def always_seeked_def
        is_double_10)

lemma converted_state_renders:
  "\<exists>s' b'. startConversion env0 (converted_state, converted_browser) = (Captured Rendered, s', b')"
  by (rule startConversion_renders[where v = video0 and R = 10])
     (simp_all add: converted_state_def ready_state_def env0_def initial_state_def video0_def
        always_seeked_def is_double_10)

lemma captureFrame_ends:
  assumes "captureFrame j sk \<lparr>currentTime = t, frameCount = 0\<rparr> (s, b) = (r, s', b')"
    and "\<forall>k. sk k" and "r \<noteq> Cancelled"
  shows "submitted (new_effects b b') = sampled (job_duration j) (job_interval j) t 0"
    and "r = Rendered \<longleftrightarrow>
           (maxFrames \<le> length (sampled (job_duration j) (job_interval j) t 0)
            \<or> js_ge (nth_time t (job_interval j)
                       (length (sampled (job_duration j) (job_interval j) t 0)))
                 (job_duration j))"
proof -
  from captureFrame_any[OF assms(1)] obtain ts fin where
    tr: "trace b' = trace b @ concat (map (frame_events j) ts) @ fin"
    and r: "loop_end r sk (job_duration j) (job_interval j) t 0 ts fin"
    by auto
  note le = loop_end_seeks[OF r assms(2,3)]
  show "submitted (new_effects b b') = sampled (job_duration j) (job_interval j) t 0"
    using tr le(1,5) by simp
  show "r = Rendered \<longleftrightarrow>
           (maxFrames \<le> length (sampled (job_duration j) (job_interval j) t 0)
            \<or> js_ge (nth_time t (job_interval j)
                       (length (sampled (job_duration j) (job_interval j) t 0)))
                 (job_duration j))"
    using le(3) unfolding le(1) by simp
qed

lemma startConversion_render_count:
  assumes "startConversion e (s, b) = (Captured r, s', b')"
  shows "count_list (new_effects b b') GifRender = (if r = Rendered then 1 else 0)"
proof -
  obtain s0 b0 v0 ts fin where
    iw: "worker_ready e (s, b) = (True, s0, b0)"
    and v0: "sourceVideoRef s0 = Some v0"
    and tr: "trace b' = trace b0 @ setup_events s0 v0
               @ concat (map (frame_events (job_of s0 v0)) ts) @ fin"
    and ts: "\<exists>more. sampled (duration v0) (js_div (Fin 1) (fps (settings s0))) (Fin 0) 0 = ts @ more"
    and fin: "loop_end r (seeked e) (duration v0) (js_div (Fin 1) (fps (settings s0)))
                (Fin 0) 0 ts fin"
    and nc: "r \<noteq> Cancelled"
    and rest: "object_urls b' = object_urls b0" "isProcessing s'" "resultUrl s' = resultUrl s0"
    by (rule startConversion_run[OF assms(1)])
  from worker_ready_effects[OF iw] obtain es0 where
    es0: "trace b0 = trace b @ es0"
      "set es0 \<subseteq> {FetchWorkerScript, ConsoleError, Alert AlertInitFailed} \<union> range CreateObjectURL"
    by blast
  have "count_list fin GifRender = (if r = Rendered then 1 else 0)"
    using fin by (cases r) (auto simp: loop_end_def)
  then show ?thesis
    using tr es0(1) count_init_render[OF es0(2)] by (simp add: setup_events_def)
qed

text \<open>A rate of \<open>-0\<close>: the interval is \<open>-\<infinity>\<close> and the second seek throws.\<close>

lemma minus_zero_rate_throws:
  shows "fst (startConversion env0 (minus_zero_state, browser0)) = Captured SeekThrew"
    and "submitted (new_effects browser0
            (snd (snd (startConversion env0 (minus_zero_state, browser0))))) = [Fin 0]"
    and "count_list (new_effects browser0
            (snd (snd (startConversion env0 (minus_zero_state, browser0))))) GifRender = 0"
proof -
  have sk: "\<forall>k. seeked env0 k" by (simp add: env0_def always_seeked_def)
  have v: "sourceVideoRef minus_zero_state = Some video0"
    by (simp add: minus_zero_state_def ready_state_def)
  from startConversion_captures[of minus_zero_state video0 env0 browser0] obtain r s' b' where
    run: "startConversion env0 (minus_zero_state, browser0) = (Captured r, s', b')"
    by (auto simp: minus_zero_state_def ready_state_def env0_def)
  have i: "js_div (Fin 1) (fps (settings minus_zero_state)) = NegInf"
    by (simp add: minus_zero_state_def js_div_def is_inf_def is_zero_def signed_inf_def)
  have smp: "sampled (duration video0) NegInf (Fin 0) 0 = [Fin 0]"
    by (simp add: sampled.simps video0_def maxFrames_def)
  note f = startConversion_frames[OF run v sk, unfolded i smp]
  have r: "r = SeekThrew" using f(1,3) by (simp add: maxFrames_def video0_def)
  show "fst (startConversion env0 (minus_zero_state, browser0)) = Captured SeekThrew"
    using run r by simp
  show "submitted (new_effects browser0
            (snd (snd (startConversion env0 (minus_zero_state, browser0))))) = [Fin 0]"
    using run f(2) by simp
  show "count_list (new_effects browser0
            (snd (snd (startConversion env0 (minus_zero_state, browser0))))) GifRender = 0"
    using run r startConversion_render_count[OF run] by simp
qed


section \<open>Claims\<close>




text \<open>
  Claim C2, at the input where the code departs from it. The fetch resolves with status 404:
  \<^verbatim>\<open>initWorker\<close> has no test of the status, caches an object URL of the error body as the
  worker script and returns true; a later call then never fetches again.
\<close>

theorem initWorker_accepts_http_error:
  "initWorker (Response 404 ''Not Found'') (initial_state, browser0)
     = (True, initial_state\<lparr>workerBlobUrl := ''blob:''\<rparr>,
        \<lparr>object_urls = [(''blob:'', ScriptBlob ''Not Found'')], url_counter = 1,
         trace = [FetchWorkerScript, CreateObjectURL ''blob:'']\<rparr>)
   \<and> initWorker (Response 200 ''worker'')
        (initial_state\<lparr>workerBlobUrl := ''blob:''\<rparr>,
         \<lparr>object_urls = [(''blob:'', ScriptBlob ''Not Found'')], url_counter = 1,
          trace = [FetchWorkerScript, CreateObjectURL ''blob:'']\<rparr>)
     = (True, initial_state\<lparr>workerBlobUrl := ''blob:''\<rparr>,
        \<lparr>object_urls = [(''blob:'', ScriptBlob ''Not Found'')], url_counter = 1,
         trace = [FetchWorkerScript, CreateObjectURL ''blob:'']\<rparr>)"
  by (simp add: initWorker_Response initWorker_ready browser0_def initial_state_def)

text \<open>
  Claim C3. The repeat count given to the encoder is 0 when the loop setting is on and -1 when
  it is off; switching the loop setting changes no other option; and every encoder that
  \<^verbatim>\<open>startConversion\<close> constructs gets the repeat count so.
\<close>

theorem repeat_encodes_loop:
  "repeat (gif_options_of s w h) = (if loop (settings s) then 0 else - 1)
   \<and> gif_options_of (s\<lparr>settings := (settings s)\<lparr>loop := l\<rparr>\<rparr>) w h
       = (gif_options_of s w h)\<lparr>repeat := (if l then 0 else - 1)\<rparr>
   \<and> (\<forall>c s' b' opts. startConversion e (s, b) = (c, s', b') \<and> GifNew opts \<in> set (new_effects b b')
         \<longrightarrow> repeat opts = (if loop (settings s) then 0 else - 1))"
proof (intro conjI allI impI)
  show "repeat (gif_options_of s w h) = (if loop (settings s) then 0 else - 1)"
    by (simp add: gif_options_of_def)
  show "gif_options_of (s\<lparr>settings := (settings s)\<lparr>loop := l\<rparr>\<rparr>) w h
       = (gif_options_of s w h)\<lparr>repeat := (if l then 0 else - 1)\<rparr>"
    by (simp add: gif_options_of_def)
next
  fix c s' b' opts
  assume a: "startConversion e (s, b) = (c, s', b') \<and> GifNew opts \<in> set (new_effects b b')"
  show "repeat opts = (if loop (settings s) then 0 else - 1)"
  proof (cases "c = NotStarted \<or> c = Threw \<or> c = NoContext")
    case True
    from startConversion_early[OF conjunct1[OF a] True] obtain es where
      es: "trace b' = trace b @ es"
      "set es \<subseteq> {FetchWorkerScript, ConsoleError} \<union> range Alert \<union> range CreateObjectURL
                        \<union> range (\<lambda>(w, h). CreateCanvas w h)"
      by blast
    have "GifNew opts \<notin> {FetchWorkerScript, ConsoleError} \<union> range Alert \<union> range CreateObjectURL
                        \<union> range (\<lambda>(w, h). CreateCanvas w h)"
      by auto
    with es(2) have "GifNew opts \<notin> set es" by blast
    with a es(1) show ?thesis by simp
  next
    case False
    then obtain r where c: "c = Captured r" by (cases c) auto
    from a c have run: "startConversion e (s, b) = (Captured r, s', b')" by simp
    obtain s0 b0 v ts fin where
      iw: "worker_ready e (s, b) = (True, s0, b0)"
      and v: "sourceVideoRef s0 = Some v"
      and tr: "trace b' = trace b0 @ setup_events s0 v
                 @ concat (map (frame_events (job_of s0 v)) ts) @ fin"
      and ts: "\<exists>more. sampled (duration v) (js_div (Fin 1) (fps (settings s0))) (Fin 0) 0 = ts @ more"
      and fin: "loop_end r (seeked e) (duration v) (js_div (Fin 1) (fps (settings s0)))
                (Fin 0) 0 ts fin"
    and nc: "r \<noteq> Cancelled"
      and rest: "object_urls b' = object_urls b0" "isProcessing s'" "resultUrl s' = resultUrl s0"
      by (rule startConversion_run[OF run])
    from worker_ready_effects[OF iw] obtain es0 where
      s0: "s0 = s\<lparr>workerBlobUrl := workerBlobUrl s0\<rparr>" and es0: "trace b0 = trace b @ es0"
      "set es0 \<subseteq> {FetchWorkerScript, ConsoleError, Alert AlertInitFailed} \<union> range CreateObjectURL"
      by blast
    have fin': "GifNew opts \<notin> set fin" using fin by (cases r) (auto simp: loop_end_def)
    have ne: "new_effects b b' = es0 @ setup_events s0 v
                 @ concat (map (frame_events (job_of s0 v)) ts) @ fin"
      using tr es0(1) by simp
    have "GifNew opts \<notin> {FetchWorkerScript, ConsoleError, Alert AlertInitFailed} \<union> range CreateObjectURL"
      by auto
    with es0(2) have "GifNew opts \<notin> set es0" by blast
    then have "opts = gif_options_of (s0\<lparr>isProcessing := True, loadingText := LoadingInitializing\<rparr>)
                  (width (settings s0)) (target_height (width (settings s0)) v)"
      using a fin' ne by (simp add: setup_events_def)
    moreover have "settings s0 = settings s" by (subst s0) simp
    ultimately show ?thesis by (simp add: gif_options_of_def)
  qed
qed

theorem repeat_encodes_loop_witness:
  "\<exists>s' b' opts. startConversion env0 (ready_state, browser0) = (Captured Rendered, s', b')
      \<and> GifNew opts \<in> set (new_effects browser0 b') \<and> repeat opts = 0"
proof -
  have sk: "\<forall>k. seeked env0 k" by (simp add: env0_def always_seeked_def)
  from ready_state_renders obtain s' b' where
    run: "startConversion env0 (ready_state, browser0) = (Captured Rendered, s', b')"
    by blast
  obtain s0 b0 v ts fin where
    iw: "worker_ready env0 (ready_state, browser0) = (True, s0, b0)"
    and v: "sourceVideoRef s0 = Some v"
    and tr: "trace b' = trace b0 @ setup_events s0 v
               @ concat (map (frame_events (job_of s0 v)) ts) @ fin"
    and ts: "\<exists>more. sampled (duration v) (js_div (Fin 1) (fps (settings s0))) (Fin 0) 0 = ts @ more"
    and fin: "loop_end Rendered (seeked env0) (duration v) (js_div (Fin 1) (fps (settings s0)))
                (Fin 0) 0 ts fin"
    and nc: "Rendered \<noteq> Cancelled"
    and rest: "object_urls b' = object_urls b0" "isProcessing s'" "resultUrl s' = resultUrl s0"
    by (rule startConversion_run[OF run])
  from iw have "b0 = browser0"
    by (simp add: worker_ready_def ready_state_def)
  with tr have "GifNew (gif_options_of (s0\<lparr>isProcessing := True, loadingText := LoadingInitializing\<rparr>)
                (width (settings s0)) (target_height (width (settings s0)) v))
            \<in> set (new_effects browser0 b')"
    by (simp add: new_effects_def setup_events_def)
  moreover from this run
    repeat_encodes_loop[of ready_state "Fin 0" "Fin 0" True env0 browser0]
  have "repeat (gif_options_of (s0\<lparr>isProcessing := True, loadingText := LoadingInitializing\<rparr>)
                (width (settings s0)) (target_height (width (settings s0)) v))
          = (if loop (settings ready_state) then 0 else - 1)"
    by blast
  ultimately show ?thesis
    using run by (intro exI conjI) (assumption, assumption, simp add: ready_state_def initial_state_def)
qed

text \<open>
  Claim C4, amended. \<^verbatim>\<open>initWorker\<close> is idempotent for calls that do not overlap. Once the
  worker script is cached a call returns true at once, before any \<^verbatim>\<open>await\<close>: no fetch, state
  and cached handle unchanged. So after a call that succeeded from the unprepared state, any
  call that begins after the first one has returned changes nothing, and the two calls together
  made exactly one fetch.
\<close>

theorem initWorker_idempotent:
  "(workerBlobUrl s \<noteq> [] \<longrightarrow>
      initWorker_begin (s, b) = (Returned True, s, b) \<and> initWorker r (s, b) = (True, s, b))
   \<and> (workerBlobUrl s = [] \<and> initWorker r1 (s, b) = (True, s1, b1)
        \<longrightarrow> workerBlobUrl s1 \<noteq> []
            \<and> initWorker r2 (s1, b1) = (True, s1, b1)
            \<and> count_list (trace b1) FetchWorkerScript = Suc (count_list (trace b) FetchWorkerScript))"
proof (intro conjI impI)
  show "workerBlobUrl s \<noteq> [] \<Longrightarrow> initWorker r (s, b) = (True, s, b)"
    by (rule initWorker_ready)
  show "workerBlobUrl s \<noteq> [] \<Longrightarrow> initWorker_begin (s, b) = (Returned True, s, b)"
    by (simp add: initWorker_begin_def)
next
  assume a: "workerBlobUrl s = [] \<and> initWorker r1 (s, b) = (True, s1, b1)"
  then obtain st body where r1: "r1 = Response st body"
    by (cases r1) (auto simp: initWorker_NetworkError)
  with a show "workerBlobUrl s1 \<noteq> []" by (auto simp: initWorker_Response)
  then show "initWorker r2 (s1, b1) = (True, s1, b1)" by (rule initWorker_ready)
  from a r1 show "count_list (trace b1) FetchWorkerScript = Suc (count_list (trace b) FetchWorkerScript)"
    by (auto simp: initWorker_Response)
qed

theorem initWorker_idempotent_witness:
  "workerBlobUrl initial_state = []
   \<and> initWorker (Response 200 ''worker'') (initial_state, browser0)
        = (True, initial_state\<lparr>workerBlobUrl := ''blob:''\<rparr>,
           \<lparr>object_urls = [(''blob:'', ScriptBlob ''worker'')], url_counter = 1,
            trace = [FetchWorkerScript, CreateObjectURL ''blob:'']\<rparr>)
   \<and> initWorker NetworkError
        (initial_state\<lparr>workerBlobUrl := ''blob:''\<rparr>,
         \<lparr>object_urls = [(''blob:'', ScriptBlob ''worker'')], url_counter = 1,
          trace = [FetchWorkerScript, CreateObjectURL ''blob:'']\<rparr>)
        = (True, initial_state\<lparr>workerBlobUrl := ''blob:''\<rparr>,
           \<lparr>object_urls = [(''blob:'', ScriptBlob ''worker'')], url_counter = 1,
            trace = [FetchWorkerScript, CreateObjectURL ''blob:'']\<rparr>)"
proof -
  have 1: "workerBlobUrl initial_state = []" by (simp add: initial_state_def)
  have 2: "initWorker (Response 200 ''worker'') (initial_state, browser0)
        = (True, initial_state\<lparr>workerBlobUrl := ''blob:''\<rparr>,
           \<lparr>object_urls = [(''blob:'', ScriptBlob ''worker'')], url_counter = 1,
            trace = [FetchWorkerScript, CreateObjectURL ''blob:'']\<rparr>)"
    using 1 by (simp add: initWorker_Response browser0_def)
  from initWorker_idempotent[of initial_state browser0 "Response 200 ''worker''"
      "Response 200 ''worker''" "initial_state\<lparr>workerBlobUrl := ''blob:''\<rparr>"
      "\<lparr>object_urls = [(''blob:'', ScriptBlob ''worker'')], url_counter = 1,
            trace = [FetchWorkerScript, CreateObjectURL ''blob:'']\<rparr>" NetworkError] 1 2
  show ?thesis by simp
qed

text \<open>
  Claim C4 as stated fails for calls that overlap. The guard is read before the \<^verbatim>\<open>await\<close> and
  the handle is written after it: a second call that begins while the fetch of the first is
  still pending (the call of \<^verbatim>\<open>onMounted\<close> is not awaited, and \<^verbatim>\<open>startConversion\<close> calls again
  while the handle is empty) passes the guard too. Neither call fails, there are two fetches,
  and the handle the first call stored is replaced by the second, without being revoked.
\<close>

theorem overlapping_initWorker_calls_fetch_twice:
  "initWorker_begin (initial_state, browser0)
     = (AwaitingFetch, initial_state, browser0\<lparr>trace := [FetchWorkerScript]\<rparr>)
   \<and> initWorker_begin (initial_state, browser0\<lparr>trace := [FetchWorkerScript]\<rparr>)
     = (AwaitingFetch, initial_state, browser0\<lparr>trace := [FetchWorkerScript, FetchWorkerScript]\<rparr>)
   \<and> initWorker_resume (Response 200 ''worker'')
        (initial_state, browser0\<lparr>trace := [FetchWorkerScript, FetchWorkerScript]\<rparr>)
     = (True, initial_state\<lparr>workerBlobUrl := ''blob:''\<rparr>,
        \<lparr>object_urls = [(''blob:'', ScriptBlob ''worker'')], url_counter = 1,
         trace = [FetchWorkerScript, FetchWorkerScript, CreateObjectURL ''blob:'']\<rparr>)
   \<and> initWorker_resume (Response 200 ''worker'')
        (initial_state\<lparr>workerBlobUrl := ''blob:''\<rparr>,
         \<lparr>object_urls = [(''blob:'', ScriptBlob ''worker'')], url_counter = 1,
          trace = [FetchWorkerScript, FetchWorkerScript, CreateObjectURL ''blob:'']\<rparr>)
     = (True, initial_state\<lparr>workerBlobUrl := ''blob:i''\<rparr>,
        \<lparr>object_urls = [(''blob:i'', ScriptBlob ''worker''), (''blob:'', ScriptBlob ''worker'')],
         url_counter = 2,
         trace = [FetchWorkerScript, FetchWorkerScript, CreateObjectURL ''blob:'',
                  CreateObjectURL ''blob:i'']\<rparr>)
   \<and> count_list [FetchWorkerScript, FetchWorkerScript, CreateObjectURL ''blob:'',
                  CreateObjectURL ''blob:i''] FetchWorkerScript = 2"
  by (simp add: initWorker_begin_def initWorker_resume_def createObjectURL_def emit_def
      browser0_def initial_state_def Let_def)

text \<open>
  Claim C5, amended. In every capture run of \<^verbatim>\<open>startConversion\<close>, \<^verbatim>\<open>render\<close> is called at most
  once and nothing follows it. When every seek completes, the frames of the iterations
  \<open>0, ..., n - 1\<close> are submitted, none of which met an exit test, and at iteration \<open>n\<close> either
  an exit test holds (the frame counter has reached \<open>maxFrames\<close> or the timestamp the duration)
  and \<^verbatim>\<open>render\<close> is called, exactly once, or the timestamp is not a finite number, the
  assignment to \<^verbatim>\<open>video.currentTime\<close> throws and \<^verbatim>\<open>render\<close> is not called. So when every seek
  completes and every timestamp is finite or has reached the duration, \<^verbatim>\<open>render\<close> is called
  exactly once, after all frames, at the first iteration that meets an exit test.
\<close>

theorem render_once_after_all_frames:
  assumes "startConversion e (s, b) = (Captured r, s', b')" and "sourceVideoRef s = Some v"
  shows "count_list (new_effects b b') GifRender \<le> 1
         \<and> (\<forall>pre post. new_effects b b' = pre @ GifRender # post \<longrightarrow> post = [])
         \<and> (count_list (new_effects b b') GifRender = 1 \<longleftrightarrow> r = Rendered)
         \<and> ((\<forall>k. seeked e k) \<longrightarrow>
              submitted (new_effects b b')
                  = map (nth_time (Fin 0) (js_div (Fin 1) (fps (settings s))))
                      [0..<length (submitted (new_effects b b'))]
              \<and> (\<forall>k < length (submitted (new_effects b b')).
                    k < maxFrames
                    \<and> \<not> js_ge (nth_time (Fin 0) (js_div (Fin 1) (fps (settings s))) k) (duration v)
                    \<and> is_finite (nth_time (Fin 0) (js_div (Fin 1) (fps (settings s))) k))
              \<and> (r = Rendered \<longleftrightarrow>
                    maxFrames \<le> length (submitted (new_effects b b'))
                    \<or> js_ge (nth_time (Fin 0) (js_div (Fin 1) (fps (settings s)))
                               (length (submitted (new_effects b b')))) (duration v))
              \<and> (r \<noteq> Rendered \<longrightarrow>
                    r = SeekThrew
                    \<and> \<not> is_finite (nth_time (Fin 0) (js_div (Fin 1) (fps (settings s)))
                                      (length (submitted (new_effects b b'))))))
         \<and> ((\<forall>k. seeked e k)
              \<and> (\<forall>k \<le> maxFrames.
                    is_finite (nth_time (Fin 0) (js_div (Fin 1) (fps (settings s))) k)
                    \<or> js_ge (nth_time (Fin 0) (js_div (Fin 1) (fps (settings s))) k) (duration v))
              \<longrightarrow> r = Rendered \<and> count_list (new_effects b b') GifRender = 1)"
proof -
  obtain s0 b0 v0 ts fin where
    iw: "worker_ready e (s, b) = (True, s0, b0)"
    and v0: "sourceVideoRef s0 = Some v0"
    and tr: "trace b' = trace b0 @ setup_events s0 v0
               @ concat (map (frame_events (job_of s0 v0)) ts) @ fin"
    and ts: "\<exists>more. sampled (duration v0) (js_div (Fin 1) (fps (settings s0))) (Fin 0) 0 = ts @ more"
    and fin: "loop_end r (seeked e) (duration v0) (js_div (Fin 1) (fps (settings s0)))
                (Fin 0) 0 ts fin"
    and nc: "r \<noteq> Cancelled"
    and rest: "object_urls b' = object_urls b0" "isProcessing s'" "resultUrl s' = resultUrl s0"
    by (rule startConversion_run[OF assms(1)])
  from worker_ready_effects[OF iw] obtain es0 where
    s0: "s0 = s\<lparr>workerBlobUrl := workerBlobUrl s0\<rparr>" and es0: "trace b0 = trace b @ es0"
      "set es0 \<subseteq> {FetchWorkerScript, ConsoleError, Alert AlertInitFailed} \<union> range CreateObjectURL"
    by blast
  have "sourceVideoRef s0 = sourceVideoRef s" "settings s0 = settings s"
    by (subst s0, simp)+
  with v0 assms(2) have vv: "v0 = v" and st: "settings s0 = settings s" by simp_all
  define i where "i = js_div (Fin 1) (fps (settings s))"
  define d where "d = duration v"
  define es where "es = new_effects b b'"
  define n where "n = length (submitted es)"
  let ?front = "es0 @ setup_events s0 v0 @ concat (map (frame_events (job_of s0 v0)) ts)"
  have ne: "es = ?front @ fin"
    unfolding es_def using tr es0(1) by simp
  have front: "count_list ?front GifRender = 0"
    using count_init_render[OF es0(2)] by (simp add: setup_events_def)
  have "submitted es0 = []"
    using es0(2) by (intro submitted_none) auto
  then have sub_front: "submitted ?front = ts"
    by (simp add: setup_events_def)
  have fin_cases: "(r = Rendered \<and> fin = [GifRender]) \<or> (r \<noteq> Rendered \<and> count_list fin GifRender = 0)"
    using fin by (cases r) (auto simp: loop_end_def)
  have cnt: "count_list es GifRender = (if r = Rendered then 1 else 0)"
    unfolding ne using front fin_cases by auto
  have P1: "count_list es GifRender \<le> 1" unfolding cnt by simp
  have P2: "\<forall>pre post. es = pre @ GifRender # post \<longrightarrow> post = []"
  proof (cases "r = Rendered")
    case True
    with fin_cases have f: "fin = [GifRender]" by simp
    show ?thesis unfolding ne f by (rule count_list_le_1_last[OF front])
  next
    case False
    with cnt have "count_list es GifRender = 0" by simp
    then show ?thesis by (rule no_split_without)
  qed
  have P3: "count_list es GifRender = 1 \<longleftrightarrow> r = Rendered" unfolding cnt by simp
  have P4: "submitted es = map (nth_time (Fin 0) i) [0..<n]
      \<and> (\<forall>k < n. k < maxFrames \<and> \<not> js_ge (nth_time (Fin 0) i k) d \<and> is_finite (nth_time (Fin 0) i k))
      \<and> (r = Rendered \<longleftrightarrow> maxFrames \<le> n \<or> js_ge (nth_time (Fin 0) i n) d)
      \<and> (r \<noteq> Rendered \<longrightarrow> r = SeekThrew \<and> \<not> is_finite (nth_time (Fin 0) i n))"
    if sk: "\<forall>k. seeked e k"
  proof -
    note le = loop_end_seeks[OF fin sk nc, unfolded vv st, folded i_def d_def]
    have sub: "submitted es = sampled d i (Fin 0) 0"
      unfolding ne using sub_front le(1,5) by simp
    have n: "n = length (sampled d i (Fin 0) 0)" by (simp add: n_def sub)
    have A: "submitted es = map (nth_time (Fin 0) i) [0..<n]"
      unfolding sub n by (rule sampled_nth)
    have B: "\<forall>k < n. k < maxFrames \<and> \<not> js_ge (nth_time (Fin 0) i k) d
                \<and> is_finite (nth_time (Fin 0) i k)"
      unfolding n using sampled_below[of _ d i "Fin 0" 0] by simp
    have C: "r = Rendered \<longleftrightarrow> maxFrames \<le> n \<or> js_ge (nth_time (Fin 0) i n) d"
      using le(3) unfolding le(1) n by simp
    have D: "r \<noteq> Rendered \<longrightarrow> r = SeekThrew \<and> \<not> is_finite (nth_time (Fin 0) i n)"
      using le(2) C sampled_stop[of 0 d i "Fin 0"] unfolding n by auto
    from A B C D show ?thesis by (intro conjI)
  qed
  have P5: "r = Rendered \<and> count_list es GifRender = 1"
    if sk: "\<forall>k. seeked e k"
      and fi: "\<forall>k \<le> maxFrames. is_finite (nth_time (Fin 0) i k) \<or> js_ge (nth_time (Fin 0) i k) d"
  proof -
    note le = loop_end_seeks[OF fin sk nc, unfolded vv st, folded i_def d_def]
    have sub: "submitted es = sampled d i (Fin 0) 0"
      unfolding ne using sub_front le(1,5) by simp
    have "n \<le> maxFrames"
      using length_sampled[of d i "Fin 0" 0] by (simp add: n_def sub)
    with fi have "is_finite (nth_time (Fin 0) i n) \<or> js_ge (nth_time (Fin 0) i n) d" by simp
    with P4[OF sk] have "r = Rendered" by blast
    with cnt show ?thesis by simp
  qed
  from P1 P2 P3 P4 P5 show ?thesis
    unfolding es_def n_def i_def d_def by blast
qed

theorem render_once_after_all_frames_witness:
  "\<exists>s' b'. startConversion env0 (ready_state, browser0) = (Captured Rendered, s', b')
      \<and> sourceVideoRef ready_state = Some video0
      \<and> (\<forall>k. seeked env0 k)
      \<and> (\<forall>k \<le> maxFrames.
            is_finite (nth_time (Fin 0) (js_div (Fin 1) (fps (settings ready_state))) k)
            \<or> js_ge (nth_time (Fin 0) (js_div (Fin 1) (fps (settings ready_state))) k)
                 (duration video0))
      \<and> count_list (new_effects browser0 b') GifRender = 1
      \<and> (maxFrames \<le> length (submitted (new_effects browser0 b'))
          \<or> js_ge (nth_time (Fin 0) (js_div (Fin 1) (fps (settings ready_state)))
                     (length (submitted (new_effects browser0 b')))) (duration video0))"
proof -
  have sk: "\<forall>k. seeked env0 k" by (simp add: env0_def always_seeked_def)
  have v: "sourceVideoRef ready_state = Some video0" by (simp add: ready_state_def)
  have fi: "\<forall>k \<le> maxFrames.
      is_finite (nth_time (Fin 0) (js_div (Fin 1) (fps (settings ready_state))) k)
      \<or> js_ge (nth_time (Fin 0) (js_div (Fin 1) (fps (settings ready_state))) k)
           (duration video0)"
    by (simp add: ready_state_def initial_state_def maxFrames_def tenth_times_finite)
  from ready_state_renders obtain s' b' where
    run: "startConversion env0 (ready_state, browser0) = (Captured Rendered, s', b')"
    by blast
  from render_once_after_all_frames[OF run v] sk fi
  have "count_list (new_effects browser0 b') GifRender = 1"
    and "maxFrames \<le> length (submitted (new_effects browser0 b'))
          \<or> js_ge (nth_time (Fin 0) (js_div (Fin 1) (fps (settings ready_state)))
                     (length (submitted (new_effects browser0 b')))) (duration video0)"
    by blast+
  with run v sk fi show ?thesis by blast
qed

text \<open>
  Claim C5 as stated fails in two ways. When a seek never completes (here the first
  \<^verbatim>\<open>seeked\<close> event does not arrive) the loop stays suspended and \<^verbatim>\<open>render\<close> is never called.
  When a timestamp is not finite (here the rate is \<open>-0\<close>, so the interval and the second
  timestamp are \<open>-\<infinity>\<close>) the assignment to \<^verbatim>\<open>video.currentTime\<close> throws after the first frame
  and \<^verbatim>\<open>render\<close> is never called either.
\<close>

theorem render_never_called_when_seek_stalls_or_throws:
  "fst (startConversion stall_env (ready_state, browser0)) = Captured Stalled
   \<and> count_list (new_effects browser0 (snd (snd (startConversion stall_env (ready_state, browser0)))))
        GifRender = 0
   \<and> (\<forall>k. seeked env0 k)
   \<and> fst (startConversion env0 (minus_zero_state, browser0)) = Captured SeekThrew
   \<and> submitted (new_effects browser0 (snd (snd (startConversion env0 (minus_zero_state, browser0)))))
        = [Fin 0]
   \<and> count_list (new_effects browser0 (snd (snd (startConversion env0 (minus_zero_state, browser0)))))
        GifRender = 0"
proof -
  let ?s1 = "ready_state\<lparr>isProcessing := True, loadingText := LoadingInitializing\<rparr>"
  let ?w = "width (settings ready_state)"
  let ?h = "target_height ?w video0"
  let ?j = "\<lparr>job_width = ?w, job_height = ?h, job_duration = duration video0,
             job_interval = js_div (Fin 1) (fps (settings ready_state))\<rparr>"
  let ?s3 = "?s1\<lparr>loadingText := LoadingCapturing,
                  sourceVideoRef := Some (video0\<lparr>paused := True\<rparr>)\<rparr>"
  let ?b3 = "browser0\<lparr>trace := trace browser0
               @ [CreateCanvas ?w ?h, GifNew (gif_options_of ?s1 ?w ?h), VideoPause]\<rparr>"
  let ?lv = "\<lparr>currentTime = Fin 0, frameCount = 0\<rparr>"
  have once: "captureFrame_once ?j never_seeked ?lv (?s3, ?b3)
      = Finished Stalled
          (?s3\<lparr>sourceVideoRef :=
                  map_option (\<lambda>v. v\<lparr>video_currentTime := currentTime ?lv\<rparr>) (sourceVideoRef ?s3)\<rparr>,
           emit (VideoSeek (currentTime ?lv)) ?b3)"
    by (rule captureFrame_once_stall)
       (simp_all add: never_seeked_def maxFrames_def video0_def)
  have loop: "captureFrame ?j never_seeked ?lv (?s3, ?b3)
      = (Stalled,
          ?s3\<lparr>sourceVideoRef :=
                  map_option (\<lambda>v. v\<lparr>video_currentTime := currentTime ?lv\<rparr>) (sourceVideoRef ?s3)\<rparr>,
           emit (VideoSeek (currentTime ?lv)) ?b3)"
    by (subst captureFrame.simps) (simp only: once step.case)
  have "startConversion stall_env (ready_state, browser0)
      = (Captured Stalled,
          ?s3\<lparr>sourceVideoRef :=
                  map_option (\<lambda>v. v\<lparr>video_currentTime := currentTime ?lv\<rparr>) (sourceVideoRef ?s3)\<rparr>,
           emit (VideoSeek (currentTime ?lv)) ?b3)"
    using startConversion_reaches_loop[of ready_state stall_env browser0 ready_state browser0 video0]
      loop
    by (simp add: stall_env_def env0_def ready_state_def Let_def)
  then have stall: "fst (startConversion stall_env (ready_state, browser0)) = Captured Stalled
     \<and> count_list (new_effects browser0 (snd (snd (startConversion stall_env (ready_state, browser0)))))
        GifRender = 0"
    by (simp add: new_effects_def browser0_def)
  have sk: "\<forall>k. seeked env0 k" by (simp add: env0_def always_seeked_def)
  show ?thesis
    by (intro conjI conjunct1[OF stall] conjunct2[OF stall] sk minus_zero_rate_throws)
qed




text \<open>
  Claim C7. A file whose media type does not start with \<^verbatim>\<open>video/\<close> is rejected by
  \<^verbatim>\<open>processFile\<close> with an alert and nothing else: the application state and the object URLs
  stay as they were. The prefix is the only test: every file that has it is taken as the
  selected video, whatever its name, size or content.
\<close>

theorem processFile_rejects_non_video:
  "(\<not> startsWith (file_type f) ''video/''
      \<longrightarrow> processFile f (s, b) = (s, emit (Alert AlertNotVideo) b))
   \<and> (startsWith (file_type f) ''video/''
      \<longrightarrow> videoFile (fst (processFile f (s, b))) = Some f)"
  by (simp add: processFile_def Let_def split: prod.splits)

theorem processFile_rejects_non_video_witness:
  "\<not> startsWith (file_type picture) ''video/''
   \<and> processFile picture (ready_state, browser0)
       = (ready_state, browser0\<lparr>trace := [Alert AlertNotVideo]\<rparr>)
   \<and> startsWith (file_type clip) ''video/''
   \<and> videoFile (fst (processFile clip (initial_state, browser0))) = Some clip"
  using processFile_rejects_non_video[of picture ready_state browser0]
    processFile_rejects_non_video[of clip initial_state browser0]
  by (simp add: picture_def clip_def startsWith_def emit_def browser0_def)

text \<open>
  Claim C8, at the inputs where the code departs from it. A result exists (its object URL
  \<open>u\<close> is alive) and the same video is converted again: \<^verbatim>\<open>startConversion\<close> and the
  \<^verbatim>\<open>finished\<close> callback never revoke \<open>u\<close>; the new result's URL is stored and both stay alive.
  Only \<^verbatim>\<open>processFile\<close> releases handles (\<open>processFile_releases\<close>).
\<close>

theorem result_url_not_released:
  assumes "resultUrl s = u" and "(u, bl) \<in> set (object_urls b)"
    and "startConversion e (s, b) = (Captured Rendered, s1, b1)"
    and "on_finished n (s1, b1) = (s2, b2)"
  shows "RevokeObjectURL u \<notin> set (new_effects b b2)
         \<and> (u, bl) \<in> set (object_urls b2)
         \<and> object_urls b2 = (resultUrl s2, GifBlob n) # object_urls b1
         \<and> (u, bl) \<in> set (object_urls b1)"
proof -
  obtain s0 b0 v ts fin where
    iw: "worker_ready e (s, b) = (True, s0, b0)"
    and v: "sourceVideoRef s0 = Some v"
    and tr: "trace b1 = trace b0 @ setup_events s0 v
               @ concat (map (frame_events (job_of s0 v)) ts) @ fin"
    and ts: "\<exists>more. sampled (duration v) (js_div (Fin 1) (fps (settings s0))) (Fin 0) 0 = ts @ more"
    and fin: "loop_end Rendered (seeked e) (duration v) (js_div (Fin 1) (fps (settings s0)))
                (Fin 0) 0 ts fin"
    and nc: "Rendered \<noteq> Cancelled"
    and rest: "object_urls b1 = object_urls b0" "isProcessing s1" "resultUrl s1 = resultUrl s0"
    by (rule startConversion_run[OF assms(3)])
  from worker_ready_effects[OF iw] obtain es0 us where
    es0: "trace b0 = trace b @ es0"
      "set es0 \<subseteq> {FetchWorkerScript, ConsoleError, Alert AlertInitFailed} \<union> range CreateObjectURL"
    and us: "object_urls b0 = us @ object_urls b"
    by blast
  let ?u2 = "''blob:'' @ replicate (url_counter b1) (CHR ''i'')"
  have fin': "fin = [GifRender]" using fin by (simp add: loop_end_def)
  have b2: "trace b2 = trace b1 @ [CreateObjectURL ?u2]"
    "object_urls b2 = (?u2, GifBlob n) # object_urls b1" and s2: "resultUrl s2 = ?u2"
    using assms(4) by (auto simp: on_finished_def createObjectURL_def Let_def)
  have ne: "new_effects b b2 = es0 @ setup_events s0 v
               @ concat (map (frame_events (job_of s0 v)) ts) @ [GifRender, CreateObjectURL ?u2]"
    using b2(1) tr es0(1) fin' by simp
  have "RevokeObjectURL u \<notin> set (new_effects b b2)"
    unfolding ne using no_revoke_in_init[OF es0(2)] by (simp add: setup_events_def)
  moreover have "(u, bl) \<in> set (object_urls b1)"
    using assms(2) rest(1) us by simp
  ultimately show ?thesis using b2(2) s2 by simp
qed

theorem result_url_not_released_witness:
  "\<exists>s1 b1 s2 b2.
     resultUrl converted_state = ''blob:ii''
     \<and> (''blob:ii'', GifBlob 1048576) \<in> set (object_urls converted_browser)
     \<and> startConversion env0 (converted_state, converted_browser) = (Captured Rendered, s1, b1)
     \<and> on_finished 2097152 (s1, b1) = (s2, b2)
     \<and> RevokeObjectURL ''blob:ii'' \<notin> set (new_effects converted_browser b2)
     \<and> (''blob:ii'', GifBlob 1048576) \<in> set (object_urls b2)
     \<and> object_urls b2 = (resultUrl s2, GifBlob 2097152) # object_urls b1"
proof -
  have sk: "\<forall>k. seeked env0 k" by (simp add: env0_def always_seeked_def)
  from converted_state_renders obtain s1 b1 where
    run: "startConversion env0 (converted_state, converted_browser) = (Captured Rendered, s1, b1)"
    by blast
  obtain s2 b2 where fin: "on_finished 2097152 (s1, b1) = (s2, b2)"
    by (cases "on_finished 2097152 (s1, b1)")
  have 1: "resultUrl converted_state = ''blob:ii''" by (simp add: converted_state_def)
  have 2: "(''blob:ii'', GifBlob 1048576) \<in> set (object_urls converted_browser)"
    by (simp add: converted_browser_def)
  from result_url_not_released[OF 1 2 run fin] 1 2 run fin show ?thesis by blast
qed

text \<open>
  Claim C9. Whatever the fps setting (zero, negative, NaN, ...) and the duration, when every seek
  completes the capture loop finishes within 301 invocations of \<^verbatim>\<open>captureFrame\<close>: by rendering,
  by its cancellation guard (only when \<^verbatim>\<open>isProcessing\<close> was not set) or by the TypeError of a
  seek to a timestamp that is not finite; and it has submitted at most 300 frames.
\<close>

theorem capture_loop_terminates:
  assumes "\<forall>k. sk k"
  shows "\<exists>r s' b'.
           captureFrame_turns (Suc maxFrames)
             \<lparr>job_width = w, job_height = h, job_duration = d,
              job_interval = js_div (Fin 1) fps_value\<rparr>
             sk \<lparr>currentTime = Fin 0, frameCount = 0\<rparr> (s, b) = Some (r, s', b')
           \<and> r \<noteq> Stalled
           \<and> (isProcessing s \<longrightarrow> r \<noteq> Cancelled)
           \<and> length (submitted (new_effects b b')) \<le> 300"
proof -
  let ?j = "\<lparr>job_width = w, job_height = h, job_duration = d,
              job_interval = js_div (Fin 1) fps_value\<rparr>"
  let ?lv = "\<lparr>currentTime = Fin 0, frameCount = 0\<rparr>"
  obtain r s' b' where run: "captureFrame ?j sk ?lv (s, b) = (r, s', b')"
    by (cases "captureFrame ?j sk ?lv (s, b)")
  have turns: "captureFrame_turns (Suc maxFrames) ?j sk ?lv (s, b) = Some (r, s', b')"
    using captureFrame_turns_enough[of ?lv "Suc maxFrames" ?j sk "(s, b)"] run by simp
  from captureFrame_any[OF run] obtain ts fin where
    tr: "trace b' = trace b @ concat (map (frame_events ?j) ts) @ fin"
    and ts: "\<exists>more. sampled (job_duration ?j) (job_interval ?j) (currentTime ?lv) (frameCount ?lv)
                = ts @ more"
    and r: "loop_end r sk (job_duration ?j) (job_interval ?j) (currentTime ?lv) (frameCount ?lv)
              ts fin"
    and c: "r = Cancelled \<longrightarrow> \<not> isProcessing s"
    by blast
  have r': "r \<noteq> Stalled" using r assms by (cases r) (auto simp: loop_end_def)
  have fin: "submitted fin = []" using r by (cases r) (auto simp: loop_end_def)
  from ts obtain more where
    "sampled (job_duration ?j) (job_interval ?j) (currentTime ?lv) (frameCount ?lv) = ts @ more"
    by blast
  then have "length ts \<le> length (sampled (job_duration ?j) (job_interval ?j) (currentTime ?lv) (frameCount ?lv))"
    by simp
  also have "\<dots> \<le> maxFrames - frameCount ?lv" by (rule length_sampled)
  finally have len: "length ts \<le> 300" by (simp add: maxFrames_def)
  have "submitted (new_effects b b') = ts" using tr fin by simp
  with turns r' c len show ?thesis by auto
qed

theorem capture_loop_terminates_witness:
  "(\<forall>k. always_seeked k) \<and> isProcessing capturing_state
   \<and> (\<exists>s' b'.
        captureFrame_turns (Suc maxFrames)
          \<lparr>job_width = Fin 480, job_height = Fin 270, job_duration = Fin 1,
           job_interval = js_div (Fin 1) (Fin (- 5))\<rparr>
          always_seeked \<lparr>currentTime = Fin 0, frameCount = 0\<rparr> (capturing_state, browser0)
          = Some (Rendered, s', b')
        \<and> length (submitted (new_effects browser0 b')) = 300)
   \<and> (\<exists>s' b'.
        captureFrame_turns (Suc maxFrames)
          \<lparr>job_width = Fin 480, job_height = Fin 270, job_duration = Fin 1,
           job_interval = js_div (Fin 1) (Fin 0)\<rparr>
          always_seeked \<lparr>currentTime = Fin 0, frameCount = 0\<rparr> (capturing_state, browser0)
          = Some (Rendered, s', b')
        \<and> length (submitted (new_effects browser0 b')) = 1)"
proof -
  let ?lv = "\<lparr>currentTime = Fin 0, frameCount = 0\<rparr>"
  have 1: "\<forall>k. always_seeked k" by (simp add: always_seeked_def)
  have 2: "isProcessing capturing_state" by (simp add: capturing_state_def)
  have A: "\<exists>s' b'. captureFrame_turns (Suc maxFrames)
          \<lparr>job_width = Fin 480, job_height = Fin 270, job_duration = Fin 1,
           job_interval = js_div (Fin 1) fv\<rparr> always_seeked ?lv (capturing_state, browser0)
          = Some (Rendered, s', b')
        \<and> length (submitted (new_effects browser0 b')) = n"
    if "length (sampled (Fin 1) (js_div (Fin 1) fv) (Fin 0) 0) = n"
      "maxFrames \<le> n \<or> js_ge (nth_time (Fin 0) (js_div (Fin 1) fv) n) (Fin 1)" for fv n
  proof -
    let ?j = "\<lparr>job_width = Fin 480, job_height = Fin 270, job_duration = Fin 1,
           job_interval = js_div (Fin 1) fv\<rparr>"
    from capture_loop_terminates[OF 1, of "Fin 480" "Fin 270" "Fin 1" fv capturing_state browser0]
    obtain r s' b' where
      t: "captureFrame_turns (Suc maxFrames) ?j always_seeked ?lv (capturing_state, browser0)
            = Some (r, s', b')"
      and nc: "r \<noteq> Cancelled"
      using 2 by blast
    have "captureFrame ?j always_seeked ?lv (capturing_state, browser0) = (r, s', b')"
      using captureFrame_turns_enough[of ?lv "Suc maxFrames" ?j always_seeked
          "(capturing_state, browser0)"] t by simp
    from captureFrame_ends[OF this 1 nc] that
    have "r = Rendered" "length (submitted (new_effects browser0 b')) = n"
      by simp_all
    with t show ?thesis by blast
  qed
  have B: "length (sampled (Fin 1) (js_div (Fin 1) (Fin (- 5))) (Fin 0) 0) = 300"
  proof -
    have "\<not> js_ge (nth_time (Fin 0) (js_div (Fin 1) (Fin (- 5))) k) (Fin 1)
          \<and> is_finite (nth_time (Fin 0) (js_div (Fin 1) (Fin (- 5))) k)" if "k < maxFrames" for k
    proof -
      from that have "k \<le> 300" by (simp add: maxFrames_def)
      from minus_fifth_times[OF this] obtain x where
        "nth_time (Fin 0) (js_div (Fin 1) (Fin (- 5))) k = Fin (- x)" "0 \<le> x" by blast
      then show ?thesis by simp
    qed
    then show ?thesis
      using sampled_full[where t = "Fin 0" and i = "js_div (Fin 1) (Fin (- 5))" and d = "Fin 1"]
      by (simp add: maxFrames_def)
  qed
  have C: "js_div (Fin 1) (Fin 0) = PosInf"
    by (simp add: js_div_def is_inf_def is_zero_def signed_inf_def)
  have D: "length (sampled (Fin 1) (js_div (Fin 1) (Fin 0)) (Fin 0) 0) = 1"
    unfolding C by (simp add: sampled.simps maxFrames_def)
  have E: "js_ge (nth_time (Fin 0) (js_div (Fin 1) (Fin 0)) 1) (Fin 1)"
    unfolding C by simp
  from A[OF B] A[OF D] E 1 2 show ?thesis by (simp add: maxFrames_def)
qed

text \<open>
  Claim C10. When \<^verbatim>\<open>getContext\<close> gives null, \<^verbatim>\<open>startConversion\<close> returns with
  \<^verbatim>\<open>isProcessing\<close> true and the initializing text set and nothing else done: apart from the
  worker bootstrap the only effect is the canvas, so no encoder, no frame and no alert. Nothing
  the user can trigger afterwards (a new file, the worker bootstrap, another conversion) and no
  progress callback clears the flag.
\<close>

theorem startConversion_no_context:
  assumes "videoFile s \<noteq> None" and "sourceVideoRef s \<noteq> None"
    and "worker_ready e (s, b) = (True, s0, b0)" and "sourceVideoRef s0 = Some v"
    and "gif_defined e" and "\<not> ctx_available e"
  shows "\<exists>s' b'. startConversion e (s, b) = (NoContext, s', b')
           \<and> s' = s0\<lparr>isProcessing := True, loadingText := LoadingInitializing\<rparr>
           \<and> b' = emit (CreateCanvas (width (settings s0)) (target_height (width (settings s0)) v)) b0
           \<and> (\<forall>x \<in> set (new_effects b b').
                  x = FetchWorkerScript \<or> x \<in> range CreateObjectURL
                  \<or> x = CreateCanvas (width (settings s0)) (target_height (width (settings s0)) v))
           \<and> (\<forall>f. isProcessing (fst (processFile f (s', b'))))
           \<and> (\<forall>r. isProcessing (fst (snd (initWorker r (s', b')))))
           \<and> (\<forall>p. isProcessing (on_progress p s'))
           \<and> (\<forall>e'. isProcessing (fst (snd (startConversion e' (s', b')))))"
proof -
  let ?s' = "s0\<lparr>isProcessing := True, loadingText := LoadingInitializing\<rparr>"
  let ?b' = "emit (CreateCanvas (width (settings s0)) (target_height (width (settings s0)) v)) b0"
  have iw: "(if workerBlobUrl s = [] then initWorker (fetch_result e) (s, b) else (True, s, b))
           = (True, s0, b0)"
    using assms(3) by (simp add: worker_ready_def)
  have run: "startConversion e (s, b) = (NoContext, ?s', ?b')"
    using startConversion_reaches_loop[OF assms(1,2) iw assms(4,5)] assms(6)
    by (simp add: Let_def)
  from worker_ready_True[OF assms(3)] obtain es where
    es: "trace b0 = trace b @ es" "set es \<subseteq> {FetchWorkerScript} \<union> range CreateObjectURL"
    by blast
  have ne: "new_effects b ?b'
      = es @ [CreateCanvas (width (settings s0)) (target_height (width (settings s0)) v)]"
    using es(1) by simp
  have 1: "\<forall>x \<in> set (new_effects b ?b').
                  x = FetchWorkerScript \<or> x \<in> range CreateObjectURL
                  \<or> x = CreateCanvas (width (settings s0)) (target_height (width (settings s0)) v)"
    unfolding ne using es(2) by auto
  have 2: "\<forall>e'. isProcessing (fst (snd (startConversion e' (?s', ?b'))))"
    by (simp add: startConversion_isProcessing)
  show ?thesis
    using run 1 2 by (simp add: on_progress_def Let_def)
qed

theorem startConversion_no_context_witness:
  "videoFile ready_state \<noteq> None \<and> sourceVideoRef ready_state = Some video0
   \<and> worker_ready (env0\<lparr>ctx_available := False\<rparr>) (ready_state, browser0)
        = (True, ready_state, browser0)
   \<and> gif_defined (env0\<lparr>ctx_available := False\<rparr>)
   \<and> \<not> ctx_available (env0\<lparr>ctx_available := False\<rparr>)
   \<and> startConversion (env0\<lparr>ctx_available := False\<rparr>) (ready_state, browser0)
        = (NoContext, ready_state\<lparr>isProcessing := True, loadingText := LoadingInitializing\<rparr>,
           browser0\<lparr>trace := [CreateCanvas (Fin 480) (target_height (Fin 480) video0)]\<rparr>)"
proof -
  let ?e = "env0\<lparr>ctx_available := False\<rparr>"
  have 1: "videoFile ready_state \<noteq> None" "sourceVideoRef ready_state \<noteq> None"
    "sourceVideoRef ready_state = Some video0"
    by (simp_all add: ready_state_def)
  have 2: "worker_ready ?e (ready_state, browser0) = (True, ready_state, browser0)"
    by (simp add: worker_ready_def ready_state_def)
  have 3: "gif_defined ?e" "\<not> ctx_available ?e" by (simp_all add: env0_def)
  from startConversion_no_context[OF 1(1,2) 2 1(3) 3] 1 2 3 show ?thesis
    by (auto simp: emit_def browser0_def ready_state_def initial_state_def)
qed

end
